theory Spec2Isabelle
  imports Main "HOL-Library.AList" "HOL-Library.Multiset"
begin

section \<open>Slices and Python dictionaries\<close>

text \<open>
  A Python \<^verbatim>\<open>slice(start, stop)\<close> over a trajectory buffer: two unbounded integers.
  \<^verbatim>\<open>slice_len\<close> is the source's \<^verbatim>\<open>s.stop - s.start\<close>.
\<close>

record slice =
  start :: int
  stop :: int

definition slice_len :: "slice \<Rightarrow> int" where
  "slice_len s = stop s - start s"

text \<open>The slot indices a slice covers: Python's \<^verbatim>\<open>range(s.start, s.stop)\<close>.\<close>

definition slice_range :: "slice \<Rightarrow> int list" where
  "slice_range s = [start s..stop s - 1]"

definition slice_indices :: "slice \<Rightarrow> int set" where
  "slice_indices s = {start s..<stop s}"

text \<open>
  The exceptions the modelled code can raise. The assertions are told apart:
  \<open>AssertPolicy\<close> is the one of \<^verbatim>\<open>on_new_trajectories\<close>, \<open>AssertPendingEmpty\<close> and
  \<open>AssertCopied\<close> are the two of \<^verbatim>\<open>_maybe_enqueue_new_training_batches\<close>.
  \<open>RuntimeError\<close> is a tensor assignment whose shapes do not fit. \<open>Diverges\<close> is no
  exception: it is the outcome of a call that does not return.
\<close>

datatype error =
    KeyError
  | IndexError
  | AssertPendingEmpty
  | AssertCopied
  | NotImplementedError
  | StopIteration
  | UnboundLocalError
  | RuntimeError
  | AssertPolicy
  | Diverges

text \<open>
  A Python \<^verbatim>\<open>dict\<close> keeps its keys in insertion order: storing under an existing key
  replaces the value in place, storing under a new key appends, \<^verbatim>\<open>del\<close> raises
  \<^verbatim>\<open>KeyError\<close> on a missing key. The dictionary is an association list;
  \<open>AList.update\<close> and \<open>AList.delete\<close> are exactly these list operations.
\<close>

type_synonym ('k, 'v) dict = "('k \<times> 'v) list"

definition dict_get :: "('k, 'v) dict \<Rightarrow> 'k \<Rightarrow> 'v option" where
  "dict_get d k = map_of d k"

definition dict_set :: "'k \<Rightarrow> 'v \<Rightarrow> ('k, 'v) dict \<Rightarrow> ('k, 'v) dict" where
  "dict_set k v d = AList.update k v d"

definition dict_del :: "'k \<Rightarrow> ('k, 'v) dict \<Rightarrow> error + ('k, 'v) dict" where
  "dict_del k d = (if k \<in> set (map fst d) then Inr (AList.delete k d) else Inl KeyError)"

section \<open>SliceMerger\<close>

record SliceMerger =
  slice_starts :: "(int, slice) dict"
  slice_stops :: "(int, slice) dict"
  total_num :: int

definition SliceMerger_init :: SliceMerger where
  "SliceMerger_init = \<lparr>slice_starts = [], slice_stops = [], total_num = 0\<rparr>"

definition add_slice :: "slice \<Rightarrow> SliceMerger \<Rightarrow> SliceMerger" where
  "add_slice s m =
     m\<lparr>slice_starts := dict_set (start s) s (slice_starts m),
       slice_stops := dict_set (stop s) s (slice_stops m),
       total_num := total_num m + slice_len s\<rparr>"

definition del_slice :: "slice \<Rightarrow> SliceMerger \<Rightarrow> error + SliceMerger" where
  "del_slice s m =
     (case dict_del (start s) (slice_starts m) of
        Inl e \<Rightarrow> Inl e
      | Inr starts' \<Rightarrow>
          (case dict_del (stop s) (slice_stops m) of
             Inl e \<Rightarrow> Inl e
           | Inr stops' \<Rightarrow>
               Inr (m\<lparr>slice_starts := starts', slice_stops := stops',
                      total_num := total_num m - slice_len s\<rparr>)))"

lemma length_delete_less:
  "k \<in> set (map fst d) \<Longrightarrow> length (AList.delete k d) < length d"
proof -
  assume "k \<in> set (map fst d)"
  then obtain v where "(k, v) \<in> set d" by auto
  then have "length (filter (\<lambda>(k', _). k \<noteq> k') d) < length d"
    by (intro length_filter_less [of "(k, v)"]) auto
  then show ?thesis by (simp add: AList.delete_eq)
qed

lemma del_slice_length:
  "del_slice s m = Inr m' \<Longrightarrow> length (slice_starts m') < length (slice_starts m)"
proof -
  assume del: "del_slice s m = Inr m'"
  then have "start s \<in> set (map fst (slice_starts m))"
    and "slice_starts m' = AList.delete (start s) (slice_starts m)"
    by (auto simp: del_slice_def dict_del_def split: if_splits)
  then show ?thesis by (simp only: length_delete_less)
qed

text \<open>
  \<^verbatim>\<open>merge_slices\<close>: a slice object is always truthy, so the two walrus tests only ask
  whether \<^verbatim>\<open>dict.get\<close> returned \<^verbatim>\<open>None\<close>, and \<^verbatim>\<open>if new_slice\<close> whether one of the two
  branches ran. Every recursive call follows a successful \<^verbatim>\<open>_del_slice\<close>, which
  shortens \<^verbatim>\<open>slice_starts\<close>.
\<close>

function merge_slices :: "slice \<Rightarrow> SliceMerger \<Rightarrow> error + SliceMerger" where
  "merge_slices trajectory_slice m =
     (case dict_get (slice_stops m) (start trajectory_slice) of
        Some prev_slice \<Rightarrow>
          (case del_slice prev_slice m of
             Inl e \<Rightarrow> Inl e
           | Inr m' \<Rightarrow>
               merge_slices \<lparr>start = start prev_slice, stop = stop trajectory_slice\<rparr> m')
      | None \<Rightarrow>
          (case dict_get (slice_starts m) (stop trajectory_slice) of
             Some next_slice \<Rightarrow>
               (case del_slice next_slice m of
                  Inl e \<Rightarrow> Inl e
                | Inr m' \<Rightarrow>
                    merge_slices \<lparr>start = start trajectory_slice, stop = stop next_slice\<rparr> m')
           | None \<Rightarrow> Inr (add_slice trajectory_slice m)))"
  by pat_completeness auto
termination
  by (relation "measure (\<lambda>(s, m). length (slice_starts m))") (auto dest: del_slice_length)

declare merge_slices.simps [simp del]

definition extract_at_most :: "slice \<Rightarrow> int \<Rightarrow> SliceMerger \<Rightarrow> error + (slice \<times> SliceMerger)" where
  "extract_at_most s batch_size m =
     (let n = slice_len s in
      case del_slice s m of
        Inl e \<Rightarrow> Inl e
      | Inr m' \<Rightarrow>
          if n > batch_size
          then Inr (\<lparr>start = start s, stop = start s + batch_size\<rparr>,
                    add_slice \<lparr>start = start s + batch_size, stop = stop s\<rparr> m')
          else Inr (s, m'))"

text \<open>
  \<^verbatim>\<open>get_at_most\<close> returns from inside the first round of its \<^verbatim>\<open>for\<close> loop: it takes the
  first value of \<^verbatim>\<open>slice_starts\<close> in the dictionary's order.
\<close>

definition get_at_most :: "int \<Rightarrow> SliceMerger \<Rightarrow> error + (slice option \<times> SliceMerger)" where
  "get_at_most batch_size m =
     (case slice_starts m of
        [] \<Rightarrow> Inr (None, m)
      | (k, s) # rest \<Rightarrow>
          (case extract_at_most s batch_size m of
             Inl e \<Rightarrow> Inl e
           | Inr (r, m') \<Rightarrow> Inr (Some r, m')))"

text \<open>
  \<^verbatim>\<open>get_exactly\<close> walks \<^verbatim>\<open>slice_starts.items()\<close> in the dictionary's order and stops at
  the first slice that is long enough.
\<close>

definition get_exactly :: "int \<Rightarrow> SliceMerger \<Rightarrow> error + (slice option \<times> SliceMerger)" where
  "get_exactly batch_size m =
     (case find (\<lambda>(slice_start, s). slice_len s \<ge> batch_size) (slice_starts m) of
        None \<Rightarrow> Inr (None, m)
      | Some (slice_start, s) \<Rightarrow>
          (case extract_at_most s batch_size m of
             Inl e \<Rightarrow> Inl e
           | Inr (r, m') \<Rightarrow> Inr (Some r, m')))"

definition ranges :: "SliceMerger \<Rightarrow> slice list" where
  "ranges m = map snd (slice_starts m)"

definition indices :: "SliceMerger \<Rightarrow> int set" where
  "indices m = (\<Union>s \<in> set (ranges m). slice_indices s)"

definition overlapping :: "slice \<Rightarrow> slice \<Rightarrow> bool" where
  "overlapping s t \<longleftrightarrow> start s < stop t \<and> start t < stop s"

definition recount :: "SliceMerger \<Rightarrow> int" where
  "recount m = sum_list (map slice_len (ranges m))"

definition consistent :: "SliceMerger \<Rightarrow> bool" where
  "consistent m \<longleftrightarrow>
     distinct (map fst (slice_starts m)) \<and>
     distinct (map fst (slice_stops m)) \<and>
     (\<forall>(k, s) \<in> set (slice_starts m). k = start s) \<and>
     (\<forall>(k, s) \<in> set (slice_stops m). k = stop s) \<and>
     set (map snd (slice_stops m)) = set (ranges m) \<and>
     (\<forall>s \<in> set (ranges m). start s < stop s) \<and>
     (\<forall>s \<in> set (ranges m). \<forall>t \<in> set (ranges m). s \<noteq> t \<longrightarrow> \<not> overlapping s t) \<and>
     total_num m = recount m"

definition no_shared_boundary :: "SliceMerger \<Rightarrow> bool" where
  "no_shared_boundary m \<longleftrightarrow> (\<forall>s \<in> set (ranges m). \<forall>t \<in> set (ranges m). stop s \<noteq> start t)"

lemma set_delete: "set (AList.delete k d) = {p \<in> set d. fst p \<noteq> k}"
  by (auto simp: AList.delete_eq)

lemma update_fresh: "k \<notin> set (map fst d) \<Longrightarrow> AList.update k v d = d @ [(k, v)]"
  by (induction d) auto

lemma overlapping_iff:
  "start s < stop s \<Longrightarrow> start t < stop t \<Longrightarrow>
   overlapping s t \<longleftrightarrow> slice_indices s \<inter> slice_indices t \<noteq> {}"
  unfolding overlapping_def slice_indices_def by (auto simp: ivl_disj_int not_less)

lemma consistentD:
  assumes "consistent m"
  shows "distinct (map fst (slice_starts m))"
    and "distinct (map fst (slice_stops m))"
    and "\<And>k s. (k, s) \<in> set (slice_starts m) \<Longrightarrow> k = start s"
    and "\<And>k s. (k, s) \<in> set (slice_stops m) \<Longrightarrow> k = stop s"
    and "set (map snd (slice_stops m)) = set (ranges m)"
    and "\<And>s. s \<in> set (ranges m) \<Longrightarrow> start s < stop s"
    and "\<And>s t. s \<in> set (ranges m) \<Longrightarrow> t \<in> set (ranges m) \<Longrightarrow> s \<noteq> t \<Longrightarrow> \<not> overlapping s t"
    and "total_num m = recount m"
  using assms unfolding consistent_def by blast+

lemma starts_keys: "consistent m \<Longrightarrow> map fst (slice_starts m) = map start (ranges m)"
  by (auto simp: ranges_def dest: consistentD(3))

lemma stops_keys: "consistent m \<Longrightarrow> map fst (slice_stops m) = map stop (map snd (slice_stops m))"
  by (auto dest: consistentD(4))

lemma distinct_ranges: "consistent m \<Longrightarrow> distinct (ranges m)"
  using consistentD(1) [of m] starts_keys [of m] by (simp add: distinct_map)

lemma same_start:
  assumes "consistent m" "s \<in> set (ranges m)" "t \<in> set (ranges m)" "start s = start t"
  shows "s = t"
  using consistentD(6) [OF assms(1,2)] consistentD(6) [OF assms(1,3)]
    consistentD(7) [OF assms(1,2,3)] assms(4)
  by (auto simp: overlapping_def)

lemma same_stop:
  assumes "consistent m" "s \<in> set (ranges m)" "t \<in> set (ranges m)" "stop s = stop t"
  shows "s = t"
  using consistentD(6) [OF assms(1,2)] consistentD(6) [OF assms(1,3)]
    consistentD(7) [OF assms(1,2,3)] assms(4)
  by (auto simp: overlapping_def)

lemma starts_get:
  assumes "consistent m"
  shows "dict_get (slice_starts m) k = Some s \<longleftrightarrow> s \<in> set (ranges m) \<and> start s = k"
proof
  assume "dict_get (slice_starts m) k = Some s"
  then have "(k, s) \<in> set (slice_starts m)" by (auto simp: dict_get_def dest: map_of_SomeD)
  with consistentD(3) [OF assms] show "s \<in> set (ranges m) \<and> start s = k"
    by (force simp: ranges_def)
next
  assume "s \<in> set (ranges m) \<and> start s = k"
  then obtain k' where "(k', s) \<in> set (slice_starts m)" and "start s = k"
    by (auto simp: ranges_def)
  with consistentD(3) [OF assms] have "(k, s) \<in> set (slice_starts m)" by auto
  with consistentD(1) [OF assms] show "dict_get (slice_starts m) k = Some s"
    by (simp add: dict_get_def)
qed

lemma stops_get:
  assumes "consistent m"
  shows "dict_get (slice_stops m) k = Some s \<longleftrightarrow> s \<in> set (ranges m) \<and> stop s = k"
proof
  assume "dict_get (slice_stops m) k = Some s"
  then have "(k, s) \<in> set (slice_stops m)" by (auto simp: dict_get_def dest: map_of_SomeD)
  with consistentD(4,5) [OF assms] show "s \<in> set (ranges m) \<and> stop s = k"
    by force
next
  assume "s \<in> set (ranges m) \<and> stop s = k"
  then have "s \<in> snd ` set (slice_stops m)" and "stop s = k"
    using consistentD(5) [OF assms] by auto
  then obtain k' where "(k', s) \<in> set (slice_stops m)" and "stop s = k"
    by force
  with consistentD(4) [OF assms] have "(k, s) \<in> set (slice_stops m)" by auto
  with consistentD(2) [OF assms] show "dict_get (slice_stops m) k = Some s"
    by (simp add: dict_get_def)
qed

lemma starts_get_None:
  assumes "consistent m"
  shows "dict_get (slice_starts m) k = None \<longleftrightarrow> k \<notin> start ` set (ranges m)"
proof -
  have "fst ` set (slice_starts m) = start ` set (ranges m)"
    using starts_keys [OF assms] by (metis list.set_map)
  then show ?thesis by (simp add: dict_get_def map_of_eq_None_iff)
qed

lemma stops_get_None:
  assumes "consistent m"
  shows "dict_get (slice_stops m) k = None \<longleftrightarrow> k \<notin> stop ` set (ranges m)"
proof -
  have "fst ` set (slice_stops m) = stop ` set (map snd (slice_stops m))"
    using stops_keys [OF assms] by (metis list.set_map)
  then have "fst ` set (slice_stops m) = stop ` set (ranges m)"
    using consistentD(5) [OF assms] by simp
  then show ?thesis by (simp add: dict_get_def map_of_eq_None_iff)
qed

lemma consistent_init: "consistent SliceMerger_init"
  by (simp add: consistent_def SliceMerger_init_def ranges_def recount_def)

lemma del_slice_ok:
  assumes c: "consistent m" and s: "s \<in> set (ranges m)"
  shows "\<exists>m'. del_slice s m = Inr m' \<and> consistent m' \<and>
           ranges m' = removeAll s (ranges m) \<and>
           total_num m' = total_num m - slice_len s"
proof -
  define m' where "m' = m\<lparr>slice_starts := AList.delete (start s) (slice_starts m),
      slice_stops := AList.delete (stop s) (slice_stops m),
      total_num := total_num m - slice_len s\<rparr>"
  have k1: "start s \<in> set (map fst (slice_starts m))"
    using s starts_keys [OF c] by simp
  have "s \<in> set (map snd (slice_stops m))" using s consistentD(5) [OF c] by simp
  then have k2: "stop s \<in> set (map fst (slice_stops m))"
    using stops_keys [OF c] by (metis image_eqI list.set_map)
  have del: "del_slice s m = Inr m'"
    using k1 k2 by (simp add: del_slice_def dict_del_def m'_def)
  have r: "ranges m' = removeAll s (ranges m)"
  proof -
    have "ranges m' = map snd (filter (\<lambda>p. fst p \<noteq> start s) (slice_starts m))"
      by (simp add: ranges_def m'_def AList.delete_eq case_prod_unfold eq_commute)
    also have "\<dots> = map snd (filter (\<lambda>p. snd p \<noteq> s) (slice_starts m))"
    proof (rule arg_cong [where f = "map snd"], rule filter_cong [OF refl])
      fix p assume p: "p \<in> set (slice_starts m)"
      then have "fst p = start (snd p)" using consistentD(3) [OF c, of "fst p" "snd p"] by simp
      moreover have "snd p \<in> set (ranges m)" using p by (simp add: ranges_def)
      ultimately show "(fst p \<noteq> start s) = (snd p \<noteq> s)"
        using same_start [OF c _ s] by auto
    qed
    also have "\<dots> = removeAll s (ranges m)"
      by (simp add: ranges_def removeAll_filter_not_eq filter_map comp_def eq_commute)
    finally show ?thesis .
  qed
  have st: "set (map snd (slice_stops m')) = set (ranges m')"
  proof -
    have "set (map snd (slice_stops m')) = snd ` {p \<in> set (slice_stops m). fst p \<noteq> stop s}"
      by (simp add: m'_def set_delete)
    also have "\<dots> = set (ranges m) - {s}"
    proof (intro set_eqI iffI)
      fix t assume "t \<in> snd ` {p \<in> set (slice_stops m). fst p \<noteq> stop s}"
      then obtain k where "(k, t) \<in> set (slice_stops m)" "k \<noteq> stop s" by auto
      moreover from this have "k = stop t" using consistentD(4) [OF c] by simp
      moreover have "t \<in> set (ranges m)"
        using calculation(1) consistentD(5) [OF c] by force
      ultimately show "t \<in> set (ranges m) - {s}" by auto
    next
      fix t assume t: "t \<in> set (ranges m) - {s}"
      then have "t \<in> snd ` set (slice_stops m)" using consistentD(5) [OF c] by simp
      then obtain k where k: "(k, t) \<in> set (slice_stops m)" by force
      then have "k = stop t" using consistentD(4) [OF c] by simp
      moreover have "stop t \<noteq> stop s" using same_stop [OF c _ s, of t] t by auto
      ultimately show "t \<in> snd ` {p \<in> set (slice_stops m). fst p \<noteq> stop s}"
        using k by force
    qed
    finally show ?thesis by (simp add: r)
  qed
  have tot: "total_num m' = recount m'"
  proof -
    have "sum_list (map slice_len (ranges m)) =
        slice_len s + sum_list (map slice_len (removeAll s (ranges m)))"
      using s distinct_ranges [OF c]
      by (simp add: sum_list_map_remove1 distinct_remove1_removeAll [symmetric])
    moreover have "recount m' = sum_list (map slice_len (removeAll s (ranges m)))"
      by (simp only: recount_def r)
    moreover have "total_num m' = total_num m - slice_len s" by (simp add: m'_def)
    ultimately show ?thesis using consistentD(8) [OF c] by (simp add: recount_def)
  qed
  have "consistent m'"
    unfolding consistent_def
  proof (intro conjI)
    show "distinct (map fst (slice_starts m'))"
      using consistentD(1) [OF c] by (simp add: m'_def distinct_delete)
    show "distinct (map fst (slice_stops m'))"
      using consistentD(2) [OF c] by (simp add: m'_def distinct_delete)
    show "\<forall>(k, s) \<in> set (slice_starts m'). k = start s"
      using consistentD(3) [OF c] by (auto simp: m'_def set_delete)
    show "\<forall>(k, s) \<in> set (slice_stops m'). k = stop s"
      using consistentD(4) [OF c] by (auto simp: m'_def set_delete)
    show "set (map snd (slice_stops m')) = set (ranges m')" by (rule st)
    show "\<forall>s \<in> set (ranges m'). start s < stop s"
      using consistentD(6) [OF c] by (simp add: r)
    show "\<forall>s \<in> set (ranges m'). \<forall>t \<in> set (ranges m'). s \<noteq> t \<longrightarrow> \<not> overlapping s t"
      using consistentD(7) [OF c] by (simp add: r)
    show "total_num m' = recount m'" by (rule tot)
  qed
  with del r show ?thesis by (auto simp: m'_def)
qed

lemma add_slice_ok:
  assumes c: "consistent m" and ne: "start s < stop s"
    and fresh: "\<forall>t \<in> set (ranges m). \<not> overlapping s t"
  shows "consistent (add_slice s m)" and "ranges (add_slice s m) = ranges m @ [s]"
    and "total_num (add_slice s m) = total_num m + slice_len s"
proof -
  have nov: "t \<in> set (ranges m) \<Longrightarrow> start t < stop t \<and> \<not> overlapping s t" for t
    using fresh consistentD(6) [OF c] by simp
  have k1: "start s \<notin> set (map fst (slice_starts m))"
    using nov ne unfolding starts_keys [OF c] by (fastforce simp: overlapping_def)
  have "stop s \<notin> stop ` set (ranges m)"
    using nov ne by (fastforce simp: overlapping_def)
  then have k2: "stop s \<notin> set (map fst (slice_stops m))"
    using stops_keys [OF c] consistentD(5) [OF c] by (metis list.set_map)
  have starts: "slice_starts (add_slice s m) = slice_starts m @ [(start s, s)]"
    using k1 by (simp add: add_slice_def dict_set_def update_fresh)
  have stops: "slice_stops (add_slice s m) = slice_stops m @ [(stop s, s)]"
    using k2 by (simp add: add_slice_def dict_set_def update_fresh)
  show r: "ranges (add_slice s m) = ranges m @ [s]"
    by (simp add: ranges_def starts)
  show "total_num (add_slice s m) = total_num m + slice_len s"
    by (simp add: add_slice_def)
  show "consistent (add_slice s m)"
    unfolding consistent_def
  proof (intro conjI)
    show "distinct (map fst (slice_starts (add_slice s m)))"
      using consistentD(1) [OF c] k1 by (simp add: starts)
    show "distinct (map fst (slice_stops (add_slice s m)))"
      using consistentD(2) [OF c] k2 by (simp add: stops)
    show "\<forall>(k, s) \<in> set (slice_starts (add_slice s m)). k = start s"
      using consistentD(3) [OF c] by (auto simp: starts)
    show "\<forall>(k, s) \<in> set (slice_stops (add_slice s m)). k = stop s"
      using consistentD(4) [OF c] by (auto simp: stops)
    show "set (map snd (slice_stops (add_slice s m))) = set (ranges (add_slice s m))"
      using consistentD(5) [OF c] by (simp add: r stops)
    show "\<forall>t \<in> set (ranges (add_slice s m)). start t < stop t"
      using consistentD(6) [OF c] ne by (simp add: r)
    show "\<forall>t \<in> set (ranges (add_slice s m)). \<forall>u \<in> set (ranges (add_slice s m)).
        t \<noteq> u \<longrightarrow> \<not> overlapping t u"
      using consistentD(7) [OF c] fresh by (auto simp: r overlapping_def)
    have "recount (add_slice s m) = recount m + slice_len s"
      by (simp add: recount_def r)
    then show "total_num (add_slice s m) = recount (add_slice s m)"
      using consistentD(8) [OF c] by (simp add: add_slice_def)
  qed
qed

lemma indices_removeAll:
  "s \<in> set (ranges m) \<Longrightarrow> ranges m' = removeAll s (ranges m) \<Longrightarrow>
   indices m = slice_indices s \<union> indices m'"
  by (auto simp: indices_def)

lemma slice_indices_join:
  "start a \<le> stop a \<Longrightarrow> start b \<le> stop b \<Longrightarrow> stop a = start b \<Longrightarrow>
   slice_indices \<lparr>start = start a, stop = stop b\<rparr> = slice_indices a \<union> slice_indices b"
  by (auto simp: slice_indices_def)

lemma merge_slices_consistent:
  assumes "consistent m" and "start ts < stop ts"
    and "\<forall>t \<in> set (ranges m). \<not> overlapping ts t"
  shows "\<exists>m'. merge_slices ts m = Inr m' \<and> consistent m' \<and>
           (no_shared_boundary m \<longrightarrow> no_shared_boundary m') \<and>
           indices m' = indices m \<union> slice_indices ts"
  using assms
proof (induction ts m rule: merge_slices.induct)
  case (1 ts m)
  note c = \<open>consistent m\<close> and ne = \<open>start ts < stop ts\<close>
    and fresh = \<open>\<forall>t \<in> set (ranges m). \<not> overlapping ts t\<close>
  show ?case
  proof (cases "dict_get (slice_stops m) (start ts)")
    case (Some prev)
    then have prev: "prev \<in> set (ranges m)" and adj: "stop prev = start ts"
      using stops_get [OF c] by auto
    from del_slice_ok [OF c prev] obtain m1 where
      del: "del_slice prev m = Inr m1" and c1: "consistent m1"
      and r1: "ranges m1 = removeAll prev (ranges m)" by blast
    let ?n = "\<lparr>start = start prev, stop = stop ts\<rparr>"
    have pne: "start prev < stop prev" using consistentD(6) [OF c prev] .
    have nsb1: "no_shared_boundary m \<longrightarrow> no_shared_boundary m1"
      by (simp add: no_shared_boundary_def r1)
    have ne1: "start ?n < stop ?n" using pne adj ne by simp
    have fresh1: "\<forall>t \<in> set (ranges m1). \<not> overlapping ?n t"
    proof
      fix t assume "t \<in> set (ranges m1)"
      then have t: "t \<in> set (ranges m)" and "t \<noteq> prev" by (auto simp: r1)
      then have "\<not> overlapping prev t" "\<not> overlapping ts t" "start t < stop t"
        using consistentD(7) [OF c prev t] fresh consistentD(6) [OF c t] by auto
      then show "\<not> overlapping ?n t" using adj by (auto simp: overlapping_def)
    qed
    from "1.IH"(2) [OF Some del c1 ne1 fresh1] obtain m' where
      m': "merge_slices ?n m1 = Inr m'" "consistent m'"
        "no_shared_boundary m1 \<longrightarrow> no_shared_boundary m'"
        "indices m' = indices m1 \<union> slice_indices ?n" by blast
    have "merge_slices ts m = Inr m'"
      by (subst merge_slices.simps) (simp add: Some del m'(1))
    moreover have "slice_indices ?n = slice_indices prev \<union> slice_indices ts"
      using pne ne adj by (intro slice_indices_join) simp_all
    then have "indices m' = indices m \<union> slice_indices ts"
      unfolding m'(4) indices_removeAll [OF prev r1] by blast
    ultimately show ?thesis using m'(2,3) nsb1 by blast
  next
    case None
    note none_prev = None
    show ?thesis
    proof (cases "dict_get (slice_starts m) (stop ts)")
      case (Some nxt)
      then have nxt: "nxt \<in> set (ranges m)" and adj: "start nxt = stop ts"
        using starts_get [OF c] by auto
      from del_slice_ok [OF c nxt] obtain m1 where
        del: "del_slice nxt m = Inr m1" and c1: "consistent m1"
        and r1: "ranges m1 = removeAll nxt (ranges m)" by blast
      let ?n = "\<lparr>start = start ts, stop = stop nxt\<rparr>"
      have pne: "start nxt < stop nxt" using consistentD(6) [OF c nxt] .
      have nsb1: "no_shared_boundary m \<longrightarrow> no_shared_boundary m1"
        by (simp add: no_shared_boundary_def r1)
      have ne1: "start ?n < stop ?n" using pne adj ne by simp
      have fresh1: "\<forall>t \<in> set (ranges m1). \<not> overlapping ?n t"
      proof
        fix t assume "t \<in> set (ranges m1)"
        then have t: "t \<in> set (ranges m)" and "t \<noteq> nxt" by (auto simp: r1)
        then have "\<not> overlapping nxt t" "\<not> overlapping ts t" "start t < stop t"
          using consistentD(7) [OF c nxt t] fresh consistentD(6) [OF c t] by auto
        then show "\<not> overlapping ?n t" using adj by (auto simp: overlapping_def)
      qed
      from "1.IH"(1) [OF none_prev Some del c1 ne1 fresh1] obtain m' where
        m': "merge_slices ?n m1 = Inr m'" "consistent m'"
          "no_shared_boundary m1 \<longrightarrow> no_shared_boundary m'"
          "indices m' = indices m1 \<union> slice_indices ?n" by blast
      have "merge_slices ts m = Inr m'"
        by (subst merge_slices.simps) (simp add: none_prev Some del m'(1))
      moreover have "slice_indices ?n = slice_indices ts \<union> slice_indices nxt"
        using pne ne adj by (intro slice_indices_join) simp_all
      then have "indices m' = indices m \<union> slice_indices ts"
        unfolding m'(4) indices_removeAll [OF nxt r1] by blast
      ultimately show ?thesis using m'(2,3) nsb1 by blast
    next
      case None
      have res: "merge_slices ts m = Inr (add_slice ts m)"
        by (subst merge_slices.simps) (simp add: none_prev None)
      note add = add_slice_ok [OF c ne fresh]
      have "start ts \<notin> stop ` set (ranges m)" and "stop ts \<notin> start ` set (ranges m)"
        using none_prev None stops_get_None [OF c] starts_get_None [OF c] by blast+
      then have "\<forall>s \<in> set (ranges m). stop s \<noteq> start ts \<and> start s \<noteq> stop ts"
        by force
      then have "no_shared_boundary m \<longrightarrow> no_shared_boundary (add_slice ts m)"
        using ne unfolding no_shared_boundary_def add(2) by auto
      moreover have "indices (add_slice ts m) = indices m \<union> slice_indices ts"
        by (auto simp: indices_def add(2))
      ultimately show ?thesis using res add(1) by blast
    qed
  qed
qed

lemma merge_slices_ok:
  assumes "consistent m" and "no_shared_boundary m" and "start ts < stop ts"
    and "\<forall>t \<in> set (ranges m). \<not> overlapping ts t"
  shows "\<exists>m'. merge_slices ts m = Inr m' \<and> consistent m' \<and> no_shared_boundary m' \<and>
           indices m' = indices m \<union> slice_indices ts"
  using merge_slices_consistent [OF assms(1,3,4)] assms(2) by blast

fun merge_slices_seq :: "slice list \<Rightarrow> SliceMerger \<Rightarrow> error + SliceMerger" where
  "merge_slices_seq [] m = Inr m"
| "merge_slices_seq (s # ss) m =
     (case merge_slices s m of Inl e \<Rightarrow> Inl e | Inr m' \<Rightarrow> merge_slices_seq ss m')"

fun pairwise_disjoint :: "slice list \<Rightarrow> bool" where
  "pairwise_disjoint [] = True"
| "pairwise_disjoint (s # ss) =
     ((\<forall>t \<in> set ss. slice_indices s \<inter> slice_indices t = {}) \<and> pairwise_disjoint ss)"

definition sorted_concat :: "SliceMerger \<Rightarrow> int list" where
  "sorted_concat m = concat (map slice_range (sort_key start (ranges m)))"

lemma set_slice_range [simp]: "set (slice_range s) = slice_indices s"
  by (auto simp: slice_range_def slice_indices_def)

lemma fresh_from_indices:
  assumes "consistent m" "start s < stop s" "slice_indices s \<inter> indices m = {}"
  shows "\<forall>t \<in> set (ranges m). \<not> overlapping s t"
proof
  fix t assume t: "t \<in> set (ranges m)"
  then have "slice_indices s \<inter> slice_indices t = {}" using assms(3) by (auto simp: indices_def)
  then show "\<not> overlapping s t"
    using overlapping_iff [OF assms(2) consistentD(6) [OF assms(1) t]] by simp
qed

lemma merge_slices_seq_ok:
  assumes "consistent m" and "no_shared_boundary m"
    and "\<forall>s \<in> set xs. start s < stop s" and "pairwise_disjoint xs"
    and "\<forall>s \<in> set xs. slice_indices s \<inter> indices m = {}"
  shows "\<exists>m'. merge_slices_seq xs m = Inr m' \<and> consistent m' \<and> no_shared_boundary m' \<and>
           indices m' = indices m \<union> (\<Union>s \<in> set xs. slice_indices s)"
  using assms
proof (induction xs arbitrary: m)
  case Nil
  then show ?case by simp
next
  case (Cons s xs)
  from Cons.prems have ne: "start s < stop s" and dis: "slice_indices s \<inter> indices m = {}"
    by simp_all
  from merge_slices_ok [OF Cons.prems(1,2) ne fresh_from_indices [OF Cons.prems(1) ne dis]]
  obtain m1 where m1: "merge_slices s m = Inr m1" "consistent m1" "no_shared_boundary m1"
    "indices m1 = indices m \<union> slice_indices s" by blast
  have "\<forall>t \<in> set xs. slice_indices t \<inter> indices m1 = {}"
    using Cons.prems(4,5) unfolding m1(4) by auto
  moreover have "\<forall>t \<in> set xs. start t < stop t" "pairwise_disjoint xs"
    using Cons.prems(3,4) by simp_all
  ultimately obtain m' where m': "merge_slices_seq xs m1 = Inr m'" "consistent m'"
    "no_shared_boundary m'" "indices m' = indices m1 \<union> (\<Union>s \<in> set xs. slice_indices s)"
    using Cons.IH [OF m1(2,3)] by blast
  have "merge_slices_seq (s # xs) m = Inr m'" using m1(1) m'(1) by simp
  moreover have "indices m' = indices m \<union> (\<Union>t \<in> set (s # xs). slice_indices t)"
    unfolding m'(4) m1(4) by auto
  ultimately show ?case using m'(2,3) by blast
qed

lemma strict_sorted_slices:
  assumes "sorted (map start rs)" and "\<forall>s \<in> set rs. start s < stop s"
    and "\<forall>s \<in> set rs. \<forall>t \<in> set rs. s \<noteq> t \<longrightarrow> \<not> overlapping s t" and "distinct rs"
  shows "sorted_wrt (<) (concat (map slice_range rs))"
  using assms
proof (induction rs)
  case Nil
  then show ?case by simp
next
  case (Cons r rs)
  have "x < y" if x: "x \<in> slice_indices r" and t: "t \<in> set rs" and y: "y \<in> slice_indices t"
    for x y t
  proof -
    have "start r \<le> start t" "start t < stop t" "\<not> overlapping r t"
      using Cons.prems t by auto
    then have "stop r \<le> start t" by (auto simp: overlapping_def)
    then show ?thesis using x y by (simp add: slice_indices_def)
  qed
  moreover have "sorted_wrt (<) (slice_range r)"
    by (simp add: slice_range_def strict_sorted_iff)
  moreover have "sorted_wrt (<) (concat (map slice_range rs))"
    using Cons.prems by (intro Cons.IH) auto
  ultimately show ?case by (auto simp: sorted_wrt_append)
qed

lemma sorted_concat_eq:
  assumes c: "consistent m"
  shows "sorted_concat m = sorted_list_of_set (indices m)"
proof -
  let ?rs = "sort_key start (ranges m)"
  have "sorted_wrt (<) (concat (map slice_range ?rs))"
    using consistentD(6,7) [OF c] distinct_ranges [OF c]
    by (intro strict_sorted_slices) auto
  moreover have "set (concat (map slice_range ?rs)) = indices m"
    by (auto simp: indices_def)
  ultimately show ?thesis
    unfolding sorted_concat_def
    by (metis sorted_list_of_set.idem_if_sorted_distinct strict_sorted_iff)
qed

definition nonempty :: "slice \<Rightarrow> bool" where
  "nonempty s \<longleftrightarrow> start s < stop s"

section \<open>C1: merge correctness\<close>

text \<open>
  Claim C1. For every sequence of non-empty, pairwise non-overlapping ranges inserted with
  \<^verbatim>\<open>merge_slices\<close> into an empty SliceMerger, every insertion succeeds, the stored
  ranges sorted by start and concatenated are exactly the sorted list of the union of all
  inserted indices, no stored range stops where another one starts, and both maps hold
  the same ranges.
\<close>

theorem merge_correctness:
  assumes "list_all nonempty xs" and "pairwise_disjoint xs"
  shows "\<exists>m. merge_slices_seq xs SliceMerger_init = Inr m \<and>
           sorted_concat m = sorted_list_of_set (\<Union>s \<in> set xs. slice_indices s) \<and>
           no_shared_boundary m \<and>
           set (map snd (slice_stops m)) = set (ranges m)"
proof -
  have ne: "\<forall>s \<in> set xs. start s < stop s"
    using assms(1) by (simp add: list_all_iff nonempty_def)
  have "no_shared_boundary SliceMerger_init"
    by (simp add: no_shared_boundary_def SliceMerger_init_def ranges_def)
  moreover have "indices SliceMerger_init = {}"
    by (simp add: indices_def SliceMerger_init_def ranges_def)
  ultimately obtain m where m: "merge_slices_seq xs SliceMerger_init = Inr m" "consistent m"
    "no_shared_boundary m" "indices m = (\<Union>s \<in> set xs. slice_indices s)"
    using merge_slices_seq_ok [OF consistent_init _ ne assms(2)] by auto
  from sorted_concat_eq [OF m(2)] m consistentD(5) [OF m(2)] show ?thesis by simp
qed

text \<open>Scenario A: inserting [0,3) and then [3,5) leaves the single range [0,5), total 5.\<close>

lemma scenario_A_run:
  "merge_slices_seq [\<lparr>start = 0, stop = 3\<rparr>, \<lparr>start = 3, stop = 5\<rparr>] SliceMerger_init =
     Inr \<lparr>slice_starts = [(0, \<lparr>start = 0, stop = 5\<rparr>)],
          slice_stops = [(5, \<lparr>start = 0, stop = 5\<rparr>)], total_num = 5\<rparr>"
  by (simp add: merge_slices.simps SliceMerger_init_def dict_get_def dict_set_def dict_del_def
      del_slice_def add_slice_def slice_len_def)

theorem merge_correctness_witness:
  "list_all nonempty [\<lparr>start = 0, stop = 3\<rparr>, \<lparr>start = 3, stop = 5\<rparr>] \<and>
   pairwise_disjoint [\<lparr>start = 0, stop = 3\<rparr>, \<lparr>start = 3, stop = 5\<rparr>] \<and>
   (\<exists>m. merge_slices_seq [\<lparr>start = 0, stop = 3\<rparr>, \<lparr>start = 3, stop = 5\<rparr>] SliceMerger_init = Inr m \<and>
      ranges m = [\<lparr>start = 0, stop = 5\<rparr>] \<and> total_num m = 5 \<and>
      sorted_concat m = sorted_list_of_set
        (\<Union>s \<in> set [\<lparr>start = 0, stop = 3\<rparr>, \<lparr>start = 3, stop = 5\<rparr>]. slice_indices s) \<and>
      no_shared_boundary m)"
proof -
  let ?xs = "[\<lparr>start = 0, stop = 3\<rparr>, \<lparr>start = 3, stop = 5\<rparr>]"
  have h1: "list_all nonempty ?xs" by (simp add: nonempty_def)
  have h2: "pairwise_disjoint ?xs" by (simp add: slice_indices_def)
  from merge_correctness [OF h1 h2] obtain m where
    m: "merge_slices_seq ?xs SliceMerger_init = Inr m"
    and rest: "sorted_concat m = sorted_list_of_set (\<Union>s \<in> set ?xs. slice_indices s)"
      "no_shared_boundary m"
    by blast
  from m have "m = \<lparr>slice_starts = [(0, \<lparr>start = 0, stop = 5\<rparr>)],
      slice_stops = [(5, \<lparr>start = 0, stop = 5\<rparr>)], total_num = 5\<rparr>"
    unfolding scenario_A_run by simp
  then have "ranges m = [\<lparr>start = 0, stop = 5\<rparr>]" "total_num m = 5"
    by (simp_all add: ranges_def)
  with h1 h2 m rest show ?thesis by blast
qed

lemma extract_at_most_ok:
  assumes c: "consistent m" and s: "s \<in> set (ranges m)" and n: "1 \<le> n"
  shows "\<exists>m'. extract_at_most s n m =
             Inr (\<lparr>start = start s, stop = min (stop s) (start s + n)\<rparr>, m') \<and>
           consistent m' \<and>
           ranges m' = removeAll s (ranges m) @
             (if n < slice_len s then [\<lparr>start = start s + n, stop = stop s\<rparr>] else []) \<and>
           total_num m' = total_num m - min n (slice_len s) \<and>
           (no_shared_boundary m \<longrightarrow> no_shared_boundary m')"
proof -
  from del_slice_ok [OF c s] obtain m1 where
    del: "del_slice s m = Inr m1" and c1: "consistent m1"
    and r1: "ranges m1 = removeAll s (ranges m)"
    and t1: "total_num m1 = total_num m - slice_len s" by blast
  have sne: "start s < stop s" using consistentD(6) [OF c s] .
  have nsb1: "no_shared_boundary m \<Longrightarrow> no_shared_boundary m1"
    by (simp add: no_shared_boundary_def r1)
  show ?thesis
  proof (cases "n < slice_len s")
    case False
    then have "extract_at_most s n m = Inr (s, m1)"
      by (simp add: extract_at_most_def del)
    moreover from False have "\<lparr>start = start s, stop = min (stop s) (start s + n)\<rparr> = s"
      by (simp add: slice_len_def min_def)
    moreover from False have "total_num m1 = total_num m - min n (slice_len s)"
      by (simp add: t1 min_def)
    ultimately show ?thesis using c1 r1 nsb1 False by simp
  next
    case True
    let ?rem = "\<lparr>start = start s + n, stop = stop s\<rparr>"
    have rne: "start ?rem < stop ?rem" using True by (simp add: slice_len_def)
    have others: "start t < stop t \<and> \<not> overlapping s t" if "t \<in> set (ranges m1)" for t
      using that consistentD(6) [OF c, of t] consistentD(7) [OF c s, of t] by (auto simp: r1)
    have fresh: "\<forall>t \<in> set (ranges m1). \<not> overlapping ?rem t"
      using others n by (fastforce simp: overlapping_def)
    note add = add_slice_ok [OF c1 rne fresh]
    have "extract_at_most s n m =
        Inr (\<lparr>start = start s, stop = start s + n\<rparr>, add_slice ?rem m1)"
      using True by (simp add: extract_at_most_def del)
    moreover from True have "min (stop s) (start s + n) = start s + n"
      by (simp add: slice_len_def)
    moreover have "total_num (add_slice ?rem m1) = total_num m - min n (slice_len s)"
      using True by (simp add: add(3) t1 slice_len_def)
    moreover have "no_shared_boundary (add_slice ?rem m1)" if nsb: "no_shared_boundary m"
    proof -
      have a: "stop t \<noteq> start s + n \<and> start t \<noteq> stop s" if "t \<in> set (ranges m1)" for t
      proof -
        have "t \<in> set (ranges m)" using that by (simp add: r1)
        then have "stop s \<noteq> start t" using nsb s unfolding no_shared_boundary_def by blast
        then have "start t \<noteq> stop s" by simp
        moreover have "stop t \<noteq> start s + n"
          using others [OF that] n True by (auto simp: overlapping_def slice_len_def)
        ultimately show ?thesis by simp
      qed
      have "stop u \<noteq> start t"
        if "u \<in> set (ranges m1) \<union> {?rem}" and "t \<in> set (ranges m1) \<union> {?rem}" for u t
      proof (cases "u = ?rem")
        case True
        then show ?thesis using a [of t] rne that(2) by auto
      next
        case False
        then have u: "u \<in> set (ranges m1)" using that(1) by simp
        show ?thesis
        proof (cases "t = ?rem")
          case True
          then show ?thesis using a [OF u] by simp
        next
          case False
          then have "t \<in> set (ranges m1)" using that(2) by simp
          with u nsb1 [OF nsb] show ?thesis unfolding no_shared_boundary_def by blast
        qed
      qed
      then show ?thesis unfolding no_shared_boundary_def add(2) by simp
    qed
    ultimately show ?thesis using add(1,2) r1 True by simp
  qed
qed

lemma get_at_most_ok:
  assumes c: "consistent m" and n: "1 \<le> n"
  shows "case ranges m of
           [] \<Rightarrow> get_at_most n m = Inr (None, m)
         | s # rest \<Rightarrow>
             (\<exists>m'. get_at_most n m =
                  Inr (Some \<lparr>start = start s, stop = min (stop s) (start s + n)\<rparr>, m') \<and>
                consistent m' \<and>
                ranges m' = rest @
                  (if n < slice_len s then [\<lparr>start = start s + n, stop = stop s\<rparr>] else []) \<and>
                total_num m' = total_num m - min n (slice_len s) \<and>
                (no_shared_boundary m \<longrightarrow> no_shared_boundary m'))"
proof (cases "slice_starts m")
  case Nil
  then show ?thesis by (simp add: ranges_def get_at_most_def)
next
  case (Cons p ps)
  obtain k s where p: "p = (k, s)" by (cases p)
  have r: "ranges m = s # map snd ps" by (simp add: ranges_def Cons p)
  then have s: "s \<in> set (ranges m)" by simp
  have "s \<notin> set (map snd ps)" using distinct_ranges [OF c] r by simp
  then have rm: "removeAll s (ranges m) = map snd ps" by (simp add: r)
  from extract_at_most_ok [OF c s n] obtain m' where
    m': "extract_at_most s n m =
       Inr (\<lparr>start = start s, stop = min (stop s) (start s + n)\<rparr>, m')"
    "consistent m'"
    "ranges m' = removeAll s (ranges m) @
      (if n < slice_len s then [\<lparr>start = start s + n, stop = stop s\<rparr>] else [])"
    "total_num m' = total_num m - min n (slice_len s)"
    "no_shared_boundary m \<longrightarrow> no_shared_boundary m'" by blast
  have "get_at_most n m =
      Inr (Some \<lparr>start = start s, stop = min (stop s) (start s + n)\<rparr>, m')"
    by (simp add: get_at_most_def Cons p m'(1))
  moreover have "ranges m' = map snd ps @
      (if n < slice_len s then [\<lparr>start = start s + n, stop = stop s\<rparr>] else [])"
    using m'(3) rm by simp
  ultimately show ?thesis using m'(2,4,5) unfolding r by simp
qed

lemma find_ranges: "find P (map snd d) = map_option snd (find (\<lambda>(k, s). P s) d)"
  by (induction d) auto

lemma get_exactly_ok:
  assumes c: "consistent m" and n: "1 \<le> n"
  shows "case find (\<lambda>s. n \<le> slice_len s) (ranges m) of
           None \<Rightarrow> get_exactly n m = Inr (None, m)
         | Some s \<Rightarrow>
             (\<exists>m'. get_exactly n m =
                  Inr (Some \<lparr>start = start s, stop = start s + n\<rparr>, m') \<and>
                consistent m' \<and>
                ranges m' = removeAll s (ranges m) @
                  (if n < slice_len s then [\<lparr>start = start s + n, stop = stop s\<rparr>] else []) \<and>
                total_num m' = total_num m - n \<and>
                (no_shared_boundary m \<longrightarrow> no_shared_boundary m'))"
proof (cases "find (\<lambda>s. n \<le> slice_len s) (ranges m)")
  case None
  then have "find (\<lambda>(k, s). n \<le> slice_len s) (slice_starts m) = None"
    by (simp add: ranges_def find_ranges)
  then show ?thesis using None by (simp add: get_exactly_def)
next
  case (Some s)
  then obtain k where f: "find (\<lambda>(k, s). n \<le> slice_len s) (slice_starts m) = Some (k, s)"
    by (auto simp: ranges_def find_ranges)
  from Some have s: "s \<in> set (ranges m)" and len: "n \<le> slice_len s"
    by (auto simp: find_Some_iff)
  from extract_at_most_ok [OF c s n] obtain m' where
    m': "extract_at_most s n m =
       Inr (\<lparr>start = start s, stop = min (stop s) (start s + n)\<rparr>, m')"
    "consistent m'"
    "ranges m' = removeAll s (ranges m) @
      (if n < slice_len s then [\<lparr>start = start s + n, stop = stop s\<rparr>] else [])"
    "total_num m' = total_num m - min n (slice_len s)"
    "no_shared_boundary m \<longrightarrow> no_shared_boundary m'" by blast
  have mn: "min (stop s) (start s + n) = start s + n" "min n (slice_len s) = n"
    using len by (simp_all add: slice_len_def)
  have "get_exactly n m = Inr (Some \<lparr>start = start s, stop = start s + n\<rparr>, m')"
    using m'(1) by (simp add: get_exactly_def f mn)
  with m'(2-5) show ?thesis unfolding Some mn by simp
qed

section \<open>C2: the running total\<close>

text \<open>
  The states a SliceMerger can reach: from the empty one, by inserting a non-empty range
  that overlaps no stored index, and by \<^verbatim>\<open>get_at_most\<close> and \<^verbatim>\<open>get_exactly\<close> with a positive
  size.
\<close>

inductive reachable_merger :: "SliceMerger \<Rightarrow> bool" where
  empty: "reachable_merger SliceMerger_init"
| merge: "reachable_merger m \<Longrightarrow> nonempty s \<Longrightarrow> slice_indices s \<inter> indices m = {} \<Longrightarrow>
     merge_slices s m = Inr m' \<Longrightarrow> reachable_merger m'"
| at_most: "reachable_merger m \<Longrightarrow> 1 \<le> n \<Longrightarrow> get_at_most n m = Inr (r, m') \<Longrightarrow>
     reachable_merger m'"
| exactly: "reachable_merger m \<Longrightarrow> 1 \<le> n \<Longrightarrow> get_exactly n m = Inr (r, m') \<Longrightarrow>
     reachable_merger m'"

lemma no_shared_boundary_init: "no_shared_boundary SliceMerger_init"
  by (simp add: no_shared_boundary_def SliceMerger_init_def ranges_def)

lemma reachable_merger_inv:
  "reachable_merger m \<Longrightarrow> consistent m \<and> no_shared_boundary m"
proof (induction rule: reachable_merger.induct)
  case empty
  show ?case by (simp add: consistent_init no_shared_boundary_init)
next
  case (merge m s m')
  then have c: "consistent m" and nsb: "no_shared_boundary m" and ne: "start s < stop s"
    by (simp_all add: nonempty_def)
  from merge_slices_ok [OF c nsb ne fresh_from_indices [OF c ne merge.hyps(3)]] merge.hyps(4)
  show ?case by auto
next
  case (at_most m n r m')
  then have c: "consistent m" and nsb: "no_shared_boundary m" by simp_all
  from get_at_most_ok [OF c at_most.hyps(2)] at_most.hyps(3) c nsb show ?case
    by (cases "ranges m") auto
next
  case (exactly m n r m')
  then have c: "consistent m" and nsb: "no_shared_boundary m" by simp_all
  from get_exactly_ok [OF c exactly.hyps(2)] exactly.hyps(3) c nsb show ?case
    by (cases "find (\<lambda>s. n \<le> slice_len s) (ranges m)") auto
qed

lemma recount_stops:
  assumes c: "consistent m"
  shows "sum_list (map slice_len (map snd (slice_stops m))) = recount m"
proof -
  have "distinct (map stop (map snd (slice_stops m)))"
    using consistentD(2) [OF c] stops_keys [OF c] by simp
  then have "distinct (map snd (slice_stops m))"
    using distinct_map [of stop "map snd (slice_stops m)"] by blast
  then have "sum_list (map slice_len (map snd (slice_stops m))) =
      sum slice_len (set (map snd (slice_stops m)))"
    by (rule sum_list_distinct_conv_sum_set)
  also have "\<dots> = sum slice_len (set (ranges m))" using consistentD(5) [OF c] by simp
  also have "\<dots> = sum_list (map slice_len (ranges m))"
    using distinct_ranges [OF c] by (rule sum_list_distinct_conv_sum_set [symmetric])
  finally show ?thesis by (simp add: recount_def)
qed

text \<open>
  Claim C2. In every state reachable from the empty SliceMerger by non-overlapping
  insertions and by extractions, the counter \<^verbatim>\<open>total_num\<close> equals the sum of the lengths
  of the stored slices, recounted from \<^verbatim>\<open>slice_starts\<close> and recounted from \<^verbatim>\<open>slice_stops\<close>.
\<close>

theorem total_num_conservation:
  assumes "reachable_merger m"
  shows "total_num m = sum_list (map slice_len (map snd (slice_starts m))) \<and>
         total_num m = sum_list (map slice_len (map snd (slice_stops m)))"
proof -
  from assms have c: "consistent m" by (simp add: reachable_merger_inv)
  from consistentD(8) [OF c] recount_stops [OF c] show ?thesis
    by (simp add: recount_def ranges_def)
qed

text \<open>
  A run that uses all three operations: insert [0,3) and [3,5), insert [7,9), take at most
  4 slots, take exactly 2.
\<close>

lemmas merger_eval = merge_slices.simps SliceMerger_init_def dict_get_def dict_set_def
  dict_del_def del_slice_def add_slice_def slice_len_def extract_at_most_def get_at_most_def
  get_exactly_def

definition example_run :: SliceMerger where
  "example_run = \<lparr>slice_starts = [(4, \<lparr>start = 4, stop = 5\<rparr>)],
     slice_stops = [(5, \<lparr>start = 4, stop = 5\<rparr>)], total_num = 1\<rparr>"

lemma example_run_reachable: "reachable_merger example_run"
proof -
  let ?a = "\<lparr>start = 0, stop = 3\<rparr>" and ?b = "\<lparr>start = 3, stop = 5\<rparr>"
    and ?c = "\<lparr>start = 7, stop = 9\<rparr>"
  let ?m1 = "\<lparr>slice_starts = [(0, ?a)], slice_stops = [(3, ?a)], total_num = 3\<rparr>"
  let ?ab = "\<lparr>start = 0, stop = 5\<rparr>"
  let ?m2 = "\<lparr>slice_starts = [(0, ?ab)], slice_stops = [(5, ?ab)], total_num = 5\<rparr>"
  let ?m3 = "\<lparr>slice_starts = [(0, ?ab), (7, ?c)], slice_stops = [(5, ?ab), (9, ?c)],
    total_num = 7\<rparr>"
  let ?d = "\<lparr>start = 4, stop = 5\<rparr>"
  let ?m4 = "\<lparr>slice_starts = [(7, ?c), (4, ?d)], slice_stops = [(9, ?c), (5, ?d)],
    total_num = 3\<rparr>"
  have "reachable_merger ?m1"
    by (rule reachable_merger.merge [OF reachable_merger.empty, of ?a])
      (simp_all add: merger_eval nonempty_def indices_def ranges_def)
  then have "reachable_merger ?m2"
    by (rule reachable_merger.merge [of _ ?b])
      (simp_all add: merger_eval nonempty_def indices_def ranges_def slice_indices_def)
  then have "reachable_merger ?m3"
    by (rule reachable_merger.merge [of _ ?c])
      (simp_all add: merger_eval nonempty_def indices_def ranges_def slice_indices_def)
  then have "reachable_merger ?m4"
    by (rule reachable_merger.at_most [of _ 4 "Some \<lparr>start = 0, stop = 4\<rparr>"])
      (simp_all add: merger_eval)
  then show ?thesis
    unfolding example_run_def
    by (rule reachable_merger.exactly [of _ 2 "Some ?c"]) (simp_all add: merger_eval)
qed

theorem total_num_conservation_witness:
  "reachable_merger example_run \<and>
   total_num example_run = sum_list (map slice_len (map snd (slice_starts example_run))) \<and>
   total_num example_run = sum_list (map slice_len (map snd (slice_stops example_run))) \<and>
   total_num example_run = 1"
  using total_num_conservation [OF example_run_reachable] example_run_reachable
  by (simp add: example_run_def)

section \<open>C5 and C6: which range an extraction takes\<close>

text \<open>
  Two ranges inserted in the order [10,14), [0,4): the dictionary keeps them in that order,
  while [0,4) comes first in start order.
\<close>

definition late_low_range :: SliceMerger where
  "late_low_range =
     \<lparr>slice_starts = [(10, \<lparr>start = 10, stop = 14\<rparr>), (0, \<lparr>start = 0, stop = 4\<rparr>)],
      slice_stops = [(14, \<lparr>start = 10, stop = 14\<rparr>), (4, \<lparr>start = 0, stop = 4\<rparr>)],
      total_num = 8\<rparr>"

text \<open>The range that comes first in start order, as the specification words it.\<close>

definition first_in_start_order :: "SliceMerger \<Rightarrow> slice option" where
  "first_in_start_order m = (case sort_key start (ranges m) of [] \<Rightarrow> None | s # _ \<Rightarrow> Some s)"

text \<open>
  The first range in start order that is at least \<open>n\<close> long, as the specification words
  \<^verbatim>\<open>extractExact\<close>.
\<close>

definition first_long_in_start_order :: "int \<Rightarrow> SliceMerger \<Rightarrow> slice option" where
  "first_long_in_start_order n m = find (\<lambda>s. n \<le> slice_len s) (sort_key start (ranges m))"

text \<open>
  Claim C5 as stated fails: \<^verbatim>\<open>get_exactly\<close> does not scan in start order. After inserting
  [10,14) and then [0,4), \<^verbatim>\<open>get_exactly(3)\<close> returns [10,13), although [0,4) is the first
  range in start order that is long enough.
\<close>

theorem get_exactly_start_order_counterexample:
  "merge_slices_seq [\<lparr>start = 10, stop = 14\<rparr>, \<lparr>start = 0, stop = 4\<rparr>] SliceMerger_init =
     Inr late_low_range \<and>
   first_long_in_start_order 3 late_low_range = Some \<lparr>start = 0, stop = 4\<rparr> \<and>
   get_exactly 3 late_low_range =
     Inr (Some \<lparr>start = 10, stop = 13\<rparr>,
          \<lparr>slice_starts = [(0, \<lparr>start = 0, stop = 4\<rparr>), (13, \<lparr>start = 13, stop = 14\<rparr>)],
           slice_stops = [(4, \<lparr>start = 0, stop = 4\<rparr>), (14, \<lparr>start = 13, stop = 14\<rparr>)],
           total_num = 5\<rparr>)"
  by (simp add: merger_eval late_low_range_def first_long_in_start_order_def ranges_def)

text \<open>
  Claim C5, amended. In a consistent SliceMerger and for \<open>n \<ge> 1\<close>, \<^verbatim>\<open>get_exactly(n)\<close> scans
  the ranges in the insertion order of \<^verbatim>\<open>slice_starts\<close> and takes the first one whose
  length is at least \<open>n\<close>: it returns its first \<open>n\<close> slots, removes the range, and appends
  the remainder \<open>[start+n, stop)\<close>, if any, as a new last range. It returns \<^verbatim>\<open>None\<close> and
  changes nothing when no single range is long enough.
\<close>

theorem get_exactly_insertion_order:
  assumes "consistent m" and "1 \<le> n"
  shows "case find (\<lambda>s. n \<le> slice_len s) (ranges m) of
           None \<Rightarrow> get_exactly n m = Inr (None, m)
         | Some s \<Rightarrow>
             (\<exists>m'. get_exactly n m = Inr (Some \<lparr>start = start s, stop = start s + n\<rparr>, m') \<and>
                ranges m' = removeAll s (ranges m) @
                  (if n < slice_len s then [\<lparr>start = start s + n, stop = stop s\<rparr>] else []) \<and>
                total_num m' = total_num m - n \<and> consistent m')"
  using get_exactly_ok [OF assms]
  by (cases "find (\<lambda>s. n \<le> slice_len s) (ranges m)") auto

text \<open>Scenario C: [0,2) and [5,9) stored, \<^verbatim>\<open>get_exactly(3)\<close>.\<close>

definition scenario_C :: SliceMerger where
  "scenario_C =
     \<lparr>slice_starts = [(0, \<lparr>start = 0, stop = 2\<rparr>), (5, \<lparr>start = 5, stop = 9\<rparr>)],
      slice_stops = [(2, \<lparr>start = 0, stop = 2\<rparr>), (9, \<lparr>start = 5, stop = 9\<rparr>)],
      total_num = 6\<rparr>"

lemma consistent_scenario_C: "consistent scenario_C"
  by (simp add: consistent_def scenario_C_def ranges_def recount_def overlapping_def
      slice_len_def)

theorem get_exactly_insertion_order_witness:
  "consistent scenario_C \<and>
   (\<exists>m'. get_exactly 3 scenario_C = Inr (Some \<lparr>start = 5, stop = 8\<rparr>, m') \<and>
      ranges m' = [\<lparr>start = 0, stop = 2\<rparr>, \<lparr>start = 8, stop = 9\<rparr>] \<and>
      total_num m' = 3 \<and> consistent m') \<and>
   get_exactly 5 scenario_C = Inr (None, scenario_C)"
proof -
  have f: "find (\<lambda>s. 3 \<le> slice_len s) (ranges scenario_C) = Some \<lparr>start = 5, stop = 9\<rparr>"
    by (simp add: scenario_C_def ranges_def slice_len_def)
  have g: "find (\<lambda>s. 5 \<le> slice_len s) (ranges scenario_C) = None"
    by (simp add: scenario_C_def ranges_def slice_len_def)
  have a: "\<exists>m'. get_exactly 3 scenario_C = Inr (Some \<lparr>start = 5, stop = 8\<rparr>, m') \<and>
      ranges m' = [\<lparr>start = 0, stop = 2\<rparr>, \<lparr>start = 8, stop = 9\<rparr>] \<and>
      total_num m' = 3 \<and> consistent m'"
    using get_exactly_insertion_order [OF consistent_scenario_C, of 3]
    unfolding f by (simp add: scenario_C_def ranges_def slice_len_def)
  have b: "get_exactly 5 scenario_C = Inr (None, scenario_C)"
    using get_exactly_insertion_order [OF consistent_scenario_C, of 5]
    unfolding g by simp
  from a b consistent_scenario_C show ?thesis by blast
qed

text \<open>
  Claim C6 as stated fails: \<^verbatim>\<open>get_at_most\<close> does not iterate in start order. In the same
  state \<^verbatim>\<open>get_at_most(1)\<close> returns [10,11), a prefix of the range inserted first, while
  the first range in start order is [0,4).
\<close>

theorem get_at_most_start_order_counterexample:
  "merge_slices_seq [\<lparr>start = 10, stop = 14\<rparr>, \<lparr>start = 0, stop = 4\<rparr>] SliceMerger_init =
     Inr late_low_range \<and>
   first_in_start_order late_low_range = Some \<lparr>start = 0, stop = 4\<rparr> \<and>
   get_at_most 1 late_low_range =
     Inr (Some \<lparr>start = 10, stop = 11\<rparr>,
          \<lparr>slice_starts = [(0, \<lparr>start = 0, stop = 4\<rparr>), (11, \<lparr>start = 11, stop = 14\<rparr>)],
           slice_stops = [(4, \<lparr>start = 0, stop = 4\<rparr>), (14, \<lparr>start = 11, stop = 14\<rparr>)],
           total_num = 7\<rparr>)"
  by (simp add: merger_eval late_low_range_def first_in_start_order_def ranges_def)

text \<open>
  Claim C6, amended. In a consistent SliceMerger and for \<open>n \<ge> 1\<close>, \<^verbatim>\<open>get_at_most(n)\<close> takes
  the first range in the insertion order of \<^verbatim>\<open>slice_starts\<close>: it returns its first
  \<open>min n length\<close> slots and removes the range; when the range is longer than \<open>n\<close>, the
  remainder \<open>[start+n, stop)\<close> is appended as a new last range, with no merge. It returns
  \<^verbatim>\<open>None\<close>, and changes nothing, exactly when no range is stored.
\<close>

theorem get_at_most_insertion_order:
  assumes "consistent m" and "1 \<le> n"
  shows "case ranges m of
           [] \<Rightarrow> get_at_most n m = Inr (None, m)
         | s # rest \<Rightarrow>
             (\<exists>m'. get_at_most n m =
                  Inr (Some \<lparr>start = start s, stop = min (stop s) (start s + n)\<rparr>, m') \<and>
                ranges m' = rest @
                  (if n < slice_len s then [\<lparr>start = start s + n, stop = stop s\<rparr>] else []) \<and>
                total_num m' = total_num m - min n (slice_len s) \<and> consistent m')"
  using get_at_most_ok [OF assms] by (cases "ranges m") auto

lemma consistent_late_low_range: "consistent late_low_range"
  by (simp add: consistent_def late_low_range_def ranges_def recount_def overlapping_def
      slice_len_def)

theorem get_at_most_insertion_order_witness:
  "consistent late_low_range \<and>
   (\<exists>m'. get_at_most 1 late_low_range = Inr (Some \<lparr>start = 10, stop = 11\<rparr>, m') \<and>
      ranges m' = [\<lparr>start = 0, stop = 4\<rparr>, \<lparr>start = 11, stop = 14\<rparr>] \<and>
      total_num m' = 7 \<and> consistent m') \<and>
   (\<exists>m'. get_at_most 9 late_low_range = Inr (Some \<lparr>start = 10, stop = 14\<rparr>, m') \<and>
      ranges m' = [\<lparr>start = 0, stop = 4\<rparr>] \<and> total_num m' = 4 \<and> consistent m') \<and>
   get_at_most 1 SliceMerger_init = Inr (None, SliceMerger_init)"
proof -
  have r: "ranges late_low_range = [\<lparr>start = 10, stop = 14\<rparr>, \<lparr>start = 0, stop = 4\<rparr>]"
    by (simp add: late_low_range_def ranges_def)
  have a: "\<exists>m'. get_at_most 1 late_low_range = Inr (Some \<lparr>start = 10, stop = 11\<rparr>, m') \<and>
      ranges m' = [\<lparr>start = 0, stop = 4\<rparr>, \<lparr>start = 11, stop = 14\<rparr>] \<and>
      total_num m' = 7 \<and> consistent m'"
    using get_at_most_insertion_order [OF consistent_late_low_range, of 1]
    unfolding r by (simp add: late_low_range_def slice_len_def)
  have b: "\<exists>m'. get_at_most 9 late_low_range = Inr (Some \<lparr>start = 10, stop = 14\<rparr>, m') \<and>
      ranges m' = [\<lparr>start = 0, stop = 4\<rparr>] \<and> total_num m' = 4 \<and> consistent m'"
    using get_at_most_insertion_order [OF consistent_late_low_range, of 9]
    unfolding r by (simp add: late_low_range_def slice_len_def)
  have c: "get_at_most 1 SliceMerger_init = Inr (None, SliceMerger_init)"
    using get_at_most_insertion_order [OF consistent_init, of 1]
    by (simp add: ranges_def SliceMerger_init_def)
  from a b c consistent_late_low_range show ?thesis by blast
qed

section \<open>Batcher\<close>

text \<open>
  Devices are the keys of \<^verbatim>\<open>buffer_mgr.traj_tensors_torch\<close>. A trajectory tensor is not
  modelled by its payload: a record of a batch buffer is known by the device and the slot
  index it was copied from.
\<close>

type_synonym device = string

type_synonym batch_buffer = "(device \<times> int) option list"

text \<open>What \<^verbatim>\<open>put_many\<close> hands to a producer-facing queue: slot indices or whole slices.\<close>

datatype queue_item = Slot int | Chunk slice

datatype signal =
    Initialized
  | TrainingBatchesAvailable nat
  | TrajectoryBuffersAvailable int int
  | StopExperienceCollection
  | ResumeExperienceCollection

record Config =
  async_rl :: bool
  batched_sampling :: bool
  use_rnn :: bool
  rnn_type :: string
  actor_critic_share_weights :: bool
  num_batches_to_accumulate :: int
  min_saving_samples :: int
  train_n_trajectories :: int
  train_iter_to_data_collection_ratio :: int
  min_initial_train_iters :: int

record BufferMgr =
  trajectories_per_training_iteration :: int
  sampling_trajectories_per_iteration :: int
  mgr_max_batches_to_accumulate :: int
  traj_tensors_torch :: "device list"
  mgr_traj_buffer_queues :: "(device, queue_item list) dict"

record Batcher =
  cfg :: Config
  policy_id :: int
  training_iteration :: int
  traj_per_training_iteration :: int
  traj_per_sampling_iteration :: int
  slices_for_training :: "(device, SliceMerger) dict"
  slices_for_sampling :: "(device, SliceMerger) dict"
  traj_buffer_queues :: "(device, queue_item list) dict"
  training_batches :: "batch_buffer list"
  max_batches_to_accumulate :: int
  available_batches :: "nat list"
  traj_tensors_to_release :: "(device \<times> slice) list list"
  emitted :: "signal list"
  shuffle_calls :: nat

text \<open>Python's \<^verbatim>\<open>range(n)\<close> for an integer \<open>n\<close>: empty when \<open>n \<le> 0\<close>.\<close>

definition py_range :: "int \<Rightarrow> nat list" where
  "py_range n = [0..<nat n]"

text \<open>\<^verbatim>\<open>{device: SliceMerger() for device in buffer_mgr.traj_tensors_torch}\<close>\<close>

definition fresh_mergers :: "device list \<Rightarrow> (device, SliceMerger) dict" where
  "fresh_mergers devices = fold (\<lambda>device. dict_set device SliceMerger_init) devices []"

text \<open>\<^verbatim>\<open>Batcher.__init__\<close>: no batch buffer is allocated yet.\<close>

definition Batcher_new :: "int \<Rightarrow> BufferMgr \<Rightarrow> Config \<Rightarrow> Batcher" where
  "Batcher_new pid buffer_mgr c =
     \<lparr>cfg = c,
      policy_id = pid,
      training_iteration = 0,
      traj_per_training_iteration = trajectories_per_training_iteration buffer_mgr,
      traj_per_sampling_iteration = sampling_trajectories_per_iteration buffer_mgr,
      slices_for_training = fresh_mergers (traj_tensors_torch buffer_mgr),
      slices_for_sampling = fresh_mergers (traj_tensors_torch buffer_mgr),
      traj_buffer_queues = mgr_traj_buffer_queues buffer_mgr,
      training_batches = [],
      max_batches_to_accumulate = mgr_max_batches_to_accumulate buffer_mgr,
      available_batches = py_range (mgr_max_batches_to_accumulate buffer_mgr),
      traj_tensors_to_release =
        map (\<lambda>_. []) (py_range (mgr_max_batches_to_accumulate buffer_mgr)),
      emitted = [],
      shuffle_calls = 0\<rparr>"

definition emit :: "signal \<Rightarrow> Batcher \<Rightarrow> Batcher" where
  "emit sig b = b\<lparr>emitted := emitted b @ [sig]\<rparr>"

text \<open>
  \<^verbatim>\<open>get_rnn_info\<close> of \<^verbatim>\<open>model_utils.py\<close>, for what it raises: \<^verbatim>\<open>NotImplementedError\<close>
  for an LSTM, and \<^verbatim>\<open>UnboundLocalError\<close> at \<^verbatim>\<open>size *= 2\<close> when actor and critic do not
  share weights (\<^verbatim>\<open>size\<close> is never assigned in that function). The value is the list of
  the names of the RNN spaces.
\<close>

definition get_rnn_info :: "Config \<Rightarrow> error + string list" where
  "get_rnn_info c =
     (let spaces = (if use_rnn c then [''deter'', ''stoch'', ''logit''] else [''deter'']) in
      if rnn_type c = ''lstm'' then Inl NotImplementedError
      else if \<not> actor_critic_share_weights c then Inl UnboundLocalError
      else Inr spaces)"

text \<open>
  \<^verbatim>\<open>Batcher.init\<close>: one buffer of \<^verbatim>\<open>traj_per_training_iteration\<close> rows for each of the
  \<^verbatim>\<open>max_batches_to_accumulate\<close> batches, then the \<^verbatim>\<open>initialized\<close> signal.
\<close>

definition alloc_trajectory_tensors :: "int \<Rightarrow> batch_buffer" where
  "alloc_trajectory_tensors num_traj = replicate (nat num_traj) None"

definition init :: "Batcher \<Rightarrow> error + Batcher" where
  "init b =
     (case get_rnn_info (cfg b) of
        Inl e \<Rightarrow> Inl e
      | Inr rnn_spaces \<Rightarrow>
          Inr (emit Initialized
            (b\<lparr>training_batches := training_batches b @
                 map (\<lambda>i. alloc_trajectory_tensors (traj_per_training_iteration b))
                   (py_range (max_batches_to_accumulate b))\<rparr>)))"

text \<open>
  \<^verbatim>\<open>self.training_batches[batch_idx][start:stop] = traj_tensors[traj_slice]\<close>: the rows
  \<open>start, \<dots>, stop - 1\<close> of the buffer receive the records of the slots of the slice. The
  tensor assignment raises when the rows do not fit the buffer.
\<close>

definition write_rows :: "nat \<Rightarrow> (device \<times> int) list \<Rightarrow> batch_buffer \<Rightarrow> batch_buffer" where
  "write_rows k rows buf = take k buf @ map Some rows @ drop (k + length rows) buf"

definition copy_rows :: "int \<Rightarrow> (device \<times> int) list \<Rightarrow> batch_buffer \<Rightarrow> error + batch_buffer" where
  "copy_rows start_row rows buf =
     (if 0 \<le> start_row \<and> start_row + int (length rows) \<le> int (length buf)
      then Inr (write_rows (nat start_row) rows buf)
      else Inl RuntimeError)"

text \<open>The body of the inner \<^verbatim>\<open>while\<close> loop: copy the data, remember what to release.\<close>

definition copy_to_batch :: "nat \<Rightarrow> device \<Rightarrow> slice \<Rightarrow> int \<Rightarrow> Batcher \<Rightarrow> error + Batcher" where
  "copy_to_batch batch_idx device traj_slice trajectories_copied b =
     (if batch_idx < length (training_batches b) then
        (case copy_rows trajectories_copied (map (Pair device) (slice_range traj_slice))
                (training_batches b ! batch_idx) of
           Inl e \<Rightarrow> Inl e
         | Inr buf \<Rightarrow>
             if batch_idx < length (traj_tensors_to_release b) then
               Inr (b\<lparr>training_batches := (training_batches b)[batch_idx := buf],
                      traj_tensors_to_release := (traj_tensors_to_release b)
                        [batch_idx := traj_tensors_to_release b ! batch_idx @
                           [(device, traj_slice)]]\<rparr>)
             else Inl IndexError)
      else Inl IndexError)"

lemma length_update_le: "length (AList.update k v d) \<le> Suc (length d)"
  by (induction d) auto

lemma get_at_most_shrinks:
  assumes "get_at_most r m = Inr (Some s, m')"
  shows "length (slice_starts m') < length (slice_starts m) \<or>
         (slice_len s = r \<and> length (slice_starts m') \<le> length (slice_starts m))"
proof -
  from assms obtain k t rest where st: "slice_starts m = (k, t) # rest"
    and ex: "extract_at_most t r m = Inr (s, m')"
    by (auto simp: get_at_most_def split: list.splits sum.splits prod.splits)
  from ex obtain m1 where del: "del_slice t m = Inr m1"
    by (auto simp: extract_at_most_def Let_def split: sum.splits)
  note len1 = del_slice_length [OF del]
  show ?thesis
  proof (cases "slice_len t > r")
    case True
    with ex del have "s = \<lparr>start = start t, stop = start t + r\<rparr>"
      and "m' = add_slice \<lparr>start = start t + r, stop = stop t\<rparr> m1"
      by (auto simp: extract_at_most_def Let_def)
    then have "slice_len s = r" and "length (slice_starts m') \<le> Suc (length (slice_starts m1))"
      by (simp_all add: slice_len_def add_slice_def dict_set_def length_update_le)
    with len1 show ?thesis by simp
  next
    case False
    with ex del have "m' = m1" by (auto simp: extract_at_most_def Let_def)
    with len1 show ?thesis by simp
  qed
qed

lemma copy_to_batch_frame:
  assumes "copy_to_batch i d s c b = Inr b'"
  shows "slices_for_training b' = slices_for_training b"
    and "slices_for_sampling b' = slices_for_sampling b"
    and "traj_per_training_iteration b' = traj_per_training_iteration b"
    and "traj_per_sampling_iteration b' = traj_per_sampling_iteration b"
    and "available_batches b' = available_batches b"
    and "emitted b' = emitted b"
    and "cfg b' = cfg b"
    and "traj_buffer_queues b' = traj_buffer_queues b"
    and "shuffle_calls b' = shuffle_calls b"
    and "policy_id b' = policy_id b"
    and "training_iteration b' = training_iteration b"
    and "max_batches_to_accumulate b' = max_batches_to_accumulate b"
  using assms by (auto simp: copy_to_batch_def split: if_splits sum.splits)

lemma dict_get_set_same:
  "dict_get (dict_set k v d) k = Some v"
  by (simp add: dict_get_def dict_set_def update_conv')

text \<open>
  The inner loop \<^verbatim>\<open>while remaining > 0 and (traj_slice := slices.get_at_most(remaining))\<close>
  for one device. \<^verbatim>\<open>remaining\<close> is \<^verbatim>\<open>traj_per_training_iteration - trajectories_copied\<close>
  whenever it is read, so only \<^verbatim>\<open>trajectories_copied\<close> is threaded. The SliceMerger of
  the device is mutated in place: the dictionary entry is replaced at its position.
\<close>

function fill_from_device :: "nat \<Rightarrow> device \<Rightarrow> int \<Rightarrow> Batcher \<Rightarrow> error + (int \<times> Batcher)" where
  "fill_from_device batch_idx device trajectories_copied b =
     (case dict_get (slices_for_training b) device of
        None \<Rightarrow> Inl KeyError
      | Some slices \<Rightarrow>
          (let remaining = traj_per_training_iteration b - trajectories_copied in
           if remaining > 0 then
             (case get_at_most remaining slices of
                Inl e \<Rightarrow> Inl e
              | Inr (None, slices') \<Rightarrow> Inr (trajectories_copied, b)
              | Inr (Some traj_slice, slices') \<Rightarrow>
                  (case copy_to_batch batch_idx device traj_slice trajectories_copied
                          (b\<lparr>slices_for_training :=
                               dict_set device slices' (slices_for_training b)\<rparr>) of
                     Inl e \<Rightarrow> Inl e
                   | Inr b' \<Rightarrow>
                       fill_from_device batch_idx device
                         (trajectories_copied + slice_len traj_slice) b'))
           else Inr (trajectories_copied, b)))"
  by pat_completeness auto
termination
proof (relation "measure (\<lambda>(batch_idx, device, copied, b).
    (case dict_get (slices_for_training b) device of
       None \<Rightarrow> 0
     | Some m \<Rightarrow> 2 * length (slice_starts m) +
         (if traj_per_training_iteration b - copied > 0 then 1 else 0)))", goal_cases)
  case 1
  show ?case by simp
next
  case (2 batch_idx device copied b slices remaining res opt slices' traj_slice b')
  from 2 have g: "get_at_most (traj_per_training_iteration b - copied) slices =
      Inr (Some traj_slice, slices')" by simp
  have "slices_for_training b' = dict_set device slices' (slices_for_training b)"
    and B: "traj_per_training_iteration b' = traj_per_training_iteration b"
    using copy_to_batch_frame(1,3) [OF 2(7)] by simp_all
  then have l: "dict_get (slices_for_training b') device = Some slices'"
    by (simp add: dict_get_set_same)
  from get_at_most_shrinks [OF g] 2(1,2,3) show ?case
    by (auto simp: l B)
qed

declare fill_from_device.simps [simp del]

text \<open>The loop \<^verbatim>\<open>for device in devices\<close>.\<close>

fun fill_batch :: "nat \<Rightarrow> device list \<Rightarrow> int \<Rightarrow> Batcher \<Rightarrow> error + (int \<times> Batcher)" where
  "fill_batch batch_idx [] trajectories_copied b = Inr (trajectories_copied, b)"
| "fill_batch batch_idx (device # devices) trajectories_copied b =
     (case fill_from_device batch_idx device trajectories_copied b of
        Inl e \<Rightarrow> Inl e
      | Inr (trajectories_copied', b') \<Rightarrow> fill_batch batch_idx devices trajectories_copied' b')"

text \<open>
  One unrolling of the inner loop, for results: either the loop stops at once, or it
  extracts one slice, copies it, and goes on from the new state.
\<close>

lemma fill_from_device_unroll:
  assumes "fill_from_device i d c b = Inr (c', b')"
  shows "(c' = c \<and> b' = b) \<or>
    (\<exists>slices ts slices' b2.
       dict_get (slices_for_training b) d = Some slices \<and>
       0 < traj_per_training_iteration b - c \<and>
       get_at_most (traj_per_training_iteration b - c) slices = Inr (Some ts, slices') \<and>
       copy_to_batch i d ts c
         (b\<lparr>slices_for_training := dict_set d slices' (slices_for_training b)\<rparr>) = Inr b2 \<and>
       fill_from_device i d (c + slice_len ts) b2 = Inr (c', b'))"
  using assms
  by (subst (asm) fill_from_device.simps)
    (auto simp: Let_def split: option.splits sum.splits if_splits prod.splits)

text \<open>A relation that every loop round keeps holds between the start and the end of the loop.\<close>

lemma fill_from_device_rel:
  assumes run: "fill_from_device i d c b = Inr (c', b')"
    and stop: "\<And>c b. R c b c b"
    and round: "\<And>c b slices ts slices' b2 c' b'.
       dict_get (slices_for_training b) d = Some slices \<Longrightarrow>
       0 < traj_per_training_iteration b - c \<Longrightarrow>
       get_at_most (traj_per_training_iteration b - c) slices = Inr (Some ts, slices') \<Longrightarrow>
       copy_to_batch i d ts c
         (b\<lparr>slices_for_training := dict_set d slices' (slices_for_training b)\<rparr>) = Inr b2 \<Longrightarrow>
       R (c + slice_len ts) b2 c' b' \<Longrightarrow> R c b c' b'"
  shows "R c b c' b'"
proof -
  have "i' = i \<Longrightarrow> d' = d \<Longrightarrow> fill_from_device i' d' c b = Inr (c', b') \<Longrightarrow> R c b c' b'"
    for i' d'
  proof (induction i' d' c b rule: fill_from_device.induct)
    case (1 batch_idx device copied b)
    note [simp] = \<open>batch_idx = i\<close> \<open>device = d\<close>
    from "1.prems"(3) have "fill_from_device i d copied b = Inr (c', b')" by simp
    from fill_from_device_unroll [OF this] show ?case
    proof (elim disjE exE conjE)
      assume "c' = copied" "b' = b"
      then show ?thesis by (simp add: stop)
    next
      fix slices ts slices' b2
      assume a: "dict_get (slices_for_training b) d = Some slices"
        "0 < traj_per_training_iteration b - copied"
        "get_at_most (traj_per_training_iteration b - copied) slices = Inr (Some ts, slices')"
        "copy_to_batch i d ts copied
           (b\<lparr>slices_for_training := dict_set d slices' (slices_for_training b)\<rparr>) = Inr b2"
        "fill_from_device i d (copied + slice_len ts) b2 = Inr (c', b')"
      have "R (copied + slice_len ts) b2 c' b'"
        using a
        by (intro "1.IH" [where ?x2.0 = slices and ?ba = "(Some ts, slices')"
              and ?xa = "Some ts" and ?y = slices'
              and ?x = "traj_per_training_iteration b - copied"]) simp_all
      from round [OF a(1-4) this] show ?thesis .
    qed
  qed
  from this [OF refl refl run] show ?thesis .
qed


lemma fill_from_device_frame:
  assumes "fill_from_device i d c b = Inr (c', b')"
  shows "available_batches b' = available_batches b \<and> cfg b' = cfg b \<and>
    emitted b' = emitted b \<and> slices_for_sampling b' = slices_for_sampling b \<and>
    traj_buffer_queues b' = traj_buffer_queues b \<and>
    traj_per_training_iteration b' = traj_per_training_iteration b \<and>
    traj_per_sampling_iteration b' = traj_per_sampling_iteration b \<and>
    shuffle_calls b' = shuffle_calls b \<and> policy_id b' = policy_id b \<and>
    training_iteration b' = training_iteration b \<and>
    max_batches_to_accumulate b' = max_batches_to_accumulate b"
proof (rule fill_from_device_rel [OF assms], goal_cases)
  case 1
  show ?case by simp
next
  case (2 c b slices ts slices' b2 c' b')
  from copy_to_batch_frame [OF 2(4)] 2(5) show ?case by simp
qed

lemma fill_batch_frame:
  assumes "fill_batch i ds c b = Inr (c', b')"
  shows "available_batches b' = available_batches b \<and> cfg b' = cfg b \<and>
    emitted b' = emitted b \<and> slices_for_sampling b' = slices_for_sampling b \<and>
    traj_buffer_queues b' = traj_buffer_queues b \<and>
    traj_per_training_iteration b' = traj_per_training_iteration b \<and>
    traj_per_sampling_iteration b' = traj_per_sampling_iteration b \<and>
    shuffle_calls b' = shuffle_calls b \<and> policy_id b' = policy_id b \<and>
    training_iteration b' = training_iteration b \<and>
    max_batches_to_accumulate b' = max_batches_to_accumulate b"
  using assms
proof (induction ds arbitrary: c b)
  case Nil
  then show ?case by simp
next
  case (Cons d ds)
  from Cons.prems obtain c1 b1 where f: "fill_from_device i d c b = Inr (c1, b1)"
    and r: "fill_batch i ds c1 b1 = Inr (c', b')"
    by (auto split: sum.splits)
  from fill_from_device_frame [OF f] Cons.IH [OF r] show ?case by simp
qed

subsection \<open>Releasing trajectory slots\<close>

text \<open>
  Batched sampling, first loop: every released slice is merged into the sampling
  SliceMerger of its device.
\<close>

fun merge_released ::
  "(device \<times> slice) list \<Rightarrow> (device, SliceMerger) dict \<Rightarrow> error + (device, SliceMerger) dict" where
  "merge_released [] sampling = Inr sampling"
| "merge_released ((device, traj_slice) # rest) sampling =
     (case dict_get sampling device of
        None \<Rightarrow> Inl KeyError
      | Some slices \<Rightarrow>
          (case merge_slices traj_slice slices of
             Inl e \<Rightarrow> Inl e
           | Inr slices' \<Rightarrow> merge_released rest (dict_set device slices' sampling)))"

text \<open>
  \<^verbatim>\<open>while (sampling_batch := slices.get_exactly(n)) is not None\<close>. Nothing bounds this loop
  in general (with \<open>n \<le> 0\<close> a stored slice is found again and again), so not returning is
  the value \<open>None\<close>.
\<close>

partial_function (option) drain_exactly ::
  "int \<Rightarrow> SliceMerger \<Rightarrow> slice list \<Rightarrow> (error + (slice list \<times> SliceMerger)) option" where
  "drain_exactly n slices batches =
     (case get_exactly n slices of
        Inl e \<Rightarrow> Some (Inl e)
      | Inr (None, slices') \<Rightarrow> Some (Inr (batches, slices'))
      | Inr (Some sampling_batch, slices') \<Rightarrow>
          drain_exactly n slices' (batches @ [sampling_batch]))"

declare drain_exactly.simps [code]

text \<open>
  Batched sampling, second loop, over \<^verbatim>\<open>slices_for_sampling.items()\<close>. A loop that does not
  return is reported as the outcome \<open>Diverges\<close>.
\<close>

fun sampling_batches ::
  "int \<Rightarrow> (device \<times> SliceMerger) list \<Rightarrow> (device, SliceMerger) dict \<Rightarrow>
   (device, queue_item list) dict \<Rightarrow>
   error + ((device, SliceMerger) dict \<times> (device, queue_item list) dict)" where
  "sampling_batches n [] sampling new_sampling_batches = Inr (sampling, new_sampling_batches)"
| "sampling_batches n ((device, slices) # rest) sampling new_sampling_batches =
     (case drain_exactly n slices [] of
        None \<Rightarrow> Inl Diverges
      | Some (Inl e) \<Rightarrow> Inl e
      | Some (Inr (batches, slices')) \<Rightarrow>
          sampling_batches n rest (dict_set device slices' sampling)
            (dict_set device (map Chunk batches) new_sampling_batches))"

text \<open>
  Unbatched sampling: the slot indices of every released slice are appended to the list of
  its device (created empty at the device's first slice); every list is sorted afterwards.
\<close>

fun collect_slots ::
  "(device \<times> slice) list \<Rightarrow> (device, int list) dict \<Rightarrow> (device, int list) dict" where
  "collect_slots [] new_sampling_batches = new_sampling_batches"
| "collect_slots ((device, traj_slice) # rest) new_sampling_batches =
     collect_slots rest
       (case dict_get new_sampling_batches device of
          None \<Rightarrow> dict_set device ([] @ slice_range traj_slice) new_sampling_batches
        | Some slots \<Rightarrow> dict_set device (slots @ slice_range traj_slice) new_sampling_batches)"

definition sorted_slots :: "(device, int list) dict \<Rightarrow> (device, queue_item list) dict" where
  "sorted_slots new_sampling_batches =
     map (\<lambda>(device, slots). (device, map Slot (sort slots))) new_sampling_batches"

text \<open>\<^verbatim>\<open>self.traj_buffer_queues[device].put_many(batches)\<close> for every device of the dict.\<close>

fun put_many_all ::
  "(device \<times> queue_item list) list \<Rightarrow> (device, queue_item list) dict \<Rightarrow>
   error + (device, queue_item list) dict" where
  "put_many_all [] queues = Inr queues"
| "put_many_all ((device, batches) # rest) queues =
     (case dict_get queues device of
        None \<Rightarrow> Inl KeyError
      | Some queue \<Rightarrow> put_many_all rest (dict_set device (queue @ batches) queues))"

definition release_traj_tensors :: "nat \<Rightarrow> Batcher \<Rightarrow> error + Batcher" where
  "release_traj_tensors batch_idx b =
     (if batch_idx < length (traj_tensors_to_release b) then
        (case (if batched_sampling (cfg b) then
                 (case merge_released (traj_tensors_to_release b ! batch_idx)
                         (slices_for_sampling b) of
                    Inl e \<Rightarrow> Inl e
                  | Inr sampling \<Rightarrow>
                      sampling_batches (traj_per_sampling_iteration b) sampling sampling [])
               else Inr (slices_for_sampling b,
                         sorted_slots (collect_slots (traj_tensors_to_release b ! batch_idx) [])))
         of
           Inl e \<Rightarrow> Inl e
         | Inr (sampling', new_sampling_batches) \<Rightarrow>
             (case put_many_all new_sampling_batches (traj_buffer_queues b) of
                Inl e \<Rightarrow> Inl e
              | Inr queues' \<Rightarrow>
                  Inr (emit (TrajectoryBuffersAvailable (policy_id b) (training_iteration b))
                    (b\<lparr>slices_for_sampling := sampling',
                       traj_tensors_to_release := (traj_tensors_to_release b)[batch_idx := []],
                       traj_buffer_queues := queues'\<rparr>))))
      else Inl IndexError)"

lemma release_traj_tensors_frame:
  assumes "release_traj_tensors i b = Inr b'"
  shows "available_batches b' = available_batches b" and "cfg b' = cfg b"
    and "slices_for_training b' = slices_for_training b"
    and "training_batches b' = training_batches b"
    and "traj_per_training_iteration b' = traj_per_training_iteration b"
    and "traj_per_sampling_iteration b' = traj_per_sampling_iteration b"
    and "shuffle_calls b' = shuffle_calls b" and "policy_id b' = policy_id b"
    and "training_iteration b' = training_iteration b"
    and "max_batches_to_accumulate b' = max_batches_to_accumulate b"
    and "traj_tensors_to_release b' = (traj_tensors_to_release b)[i := []]"
    and "emitted b' = emitted b @
      [TrajectoryBuffersAvailable (policy_id b) (training_iteration b)]"
    and "i < length (traj_tensors_to_release b)"
  using assms
  by (auto simp: release_traj_tensors_def emit_def split: if_splits sum.splits prod.splits)

subsection \<open>Assembling training batches\<close>

text \<open>
  \<^verbatim>\<open>random.shuffle(devices)\<close> is a parameter: the \<open>k\<close>-th call of a run maps the list of
  devices to \<open>shuffle k devices\<close>. It is a shuffle when it only permutes.
\<close>

type_synonym shuffle = "nat \<Rightarrow> device list \<Rightarrow> device list"

definition is_shuffle :: "shuffle \<Rightarrow> bool" where
  "is_shuffle shuffle \<longleftrightarrow> (\<forall>k devices. mset (shuffle k devices) = mset devices)"

definition total_num_trajectories :: "Batcher \<Rightarrow> int" where
  "total_num_trajectories b = sum_list (map (\<lambda>(device, slices). total_num slices)
     (slices_for_training b))"

text \<open>
  The body of the loop \<^verbatim>\<open>while self.available_batches\<close> once the guard on the number of
  trajectories has passed, up to the signal to the learner: take the first free buffer,
  check that nothing is pending for it, fill it from the devices in shuffled order, check
  the number of copied trajectories, emit \<^verbatim>\<open>training_batches_available\<close>.
\<close>

definition assemble_batch :: "shuffle \<Rightarrow> nat \<Rightarrow> Batcher \<Rightarrow> error + Batcher" where
  "assemble_batch shuffle batch_idx b =
     (if \<not> batch_idx < length (traj_tensors_to_release b) then Inl IndexError
      else if traj_tensors_to_release b ! batch_idx \<noteq> [] then Inl AssertPendingEmpty
      else
        (let devices = shuffle (shuffle_calls b) (map fst (slices_for_training b)) in
         case fill_batch batch_idx devices 0 (b\<lparr>shuffle_calls := Suc (shuffle_calls b)\<rparr>) of
           Inl e \<Rightarrow> Inl e
         | Inr (trajectories_copied, b') \<Rightarrow>
             if trajectories_copied = traj_per_training_iteration b' \<and>
                traj_per_training_iteration b' - trajectories_copied = 0
             then Inr (emit (TrainingBatchesAvailable batch_idx) b')
             else Inl AssertCopied))"

lemma assemble_batch_InrD:
  assumes a: "assemble_batch shuffle i b = Inr b'"
  shows "i < length (traj_tensors_to_release b) \<and> traj_tensors_to_release b ! i = [] \<and>
    (\<exists>b1. fill_batch i (shuffle (shuffle_calls b) (map fst (slices_for_training b))) 0
            (b\<lparr>shuffle_calls := Suc (shuffle_calls b)\<rparr>) =
              Inr (traj_per_training_iteration b1, b1) \<and>
          b' = emit (TrainingBatchesAvailable i) b1)"
proof -
  let ?f = "fill_batch i (shuffle (shuffle_calls b) (map fst (slices_for_training b))) 0
      (b\<lparr>shuffle_calls := Suc (shuffle_calls b)\<rparr>)"
  have 1: "i < length (traj_tensors_to_release b)"
    using a by (rule_tac ccontr) (simp add: assemble_batch_def)
  have 2: "traj_tensors_to_release b ! i = []"
    using a 1 by (rule_tac ccontr) (simp add: assemble_batch_def)
  show ?thesis
  proof (cases ?f)
    case (Inl e)
    with a 1 2 show ?thesis by (simp add: assemble_batch_def)
  next
    case (Inr r)
    obtain c b1 where r: "r = (c, b1)" by (cases r)
    show ?thesis
    proof (cases "c = traj_per_training_iteration b1")
      case True
      with a 1 2 Inr r show ?thesis by (simp add: assemble_batch_def)
    next
      case False
      with a 1 2 Inr r show ?thesis by (simp add: assemble_batch_def)
    qed
  qed
qed

lemma assemble_batch_available:
  "assemble_batch shuffle i b = Inr b' \<Longrightarrow> available_batches b' = available_batches b"
  by (drule assemble_batch_InrD) (auto simp: emit_def dest!: fill_batch_frame)

function maybe_enqueue_new_training_batches :: "shuffle \<Rightarrow> Batcher \<Rightarrow> error + Batcher" where
  "maybe_enqueue_new_training_batches shuffle b =
     (case available_batches b of
        [] \<Rightarrow> Inr b
      | batch_idx # rest \<Rightarrow>
          if total_num_trajectories b < traj_per_training_iteration b then Inr b
          else
            (case assemble_batch shuffle batch_idx (b\<lparr>available_batches := rest\<rparr>) of
               Inl e \<Rightarrow> Inl e
             | Inr b' \<Rightarrow>
                 if async_rl (cfg b') then
                   (case release_traj_tensors batch_idx b' of
                      Inl e \<Rightarrow> Inl e
                    | Inr b'' \<Rightarrow>
                        maybe_enqueue_new_training_batches shuffle
                          (if available_batches b'' = []
                           then emit StopExperienceCollection b'' else b''))
                 else maybe_enqueue_new_training_batches shuffle b'))"
  by pat_completeness auto
termination
proof (relation "measure (\<lambda>(shuffle, b). length (available_batches b))", goal_cases)
  case 1
  show ?case by simp
next
  case (2 shuffle b batch_idx rest b' b'')
  from assemble_batch_available [OF 2(3)] release_traj_tensors_frame(1) [OF 2(5)] 2(1)
  show ?case by (simp add: emit_def)
next
  case (3 shuffle b batch_idx rest b')
  from assemble_batch_available [OF 3(3)] 3(1) show ?case by simp
qed

declare maybe_enqueue_new_training_batches.simps [simp del]

subsection \<open>The two event handlers\<close>

text \<open>
  A trajectory report: its policy and its \<^verbatim>\<open>traj_buffer_idx\<close>, a slot index or a slice. The
  writes of \<^verbatim>\<open>env_id\<close> and \<^verbatim>\<open>start_step\<close> into the trajectory tensors are payload and are
  not modelled.
\<close>

datatype traj_buffer_idx = Index int | Range slice

record trajectory_dict =
  traj_policy_id :: int
  traj_buffer_idx :: traj_buffer_idx

definition trajectory_slice :: "trajectory_dict \<Rightarrow> slice" where
  "trajectory_slice td =
     (case traj_buffer_idx td of Range s \<Rightarrow> s | Index i \<Rightarrow> \<lparr>start = i, stop = i + 1\<rparr>)"

fun merge_new_trajectories :: "trajectory_dict list \<Rightarrow> device \<Rightarrow> Batcher \<Rightarrow> error + Batcher" where
  "merge_new_trajectories [] device b = Inr b"
| "merge_new_trajectories (td # rest) device b =
     (if traj_policy_id td \<noteq> policy_id b then Inl AssertPolicy
      else
        (case dict_get (slices_for_training b) device of
           None \<Rightarrow> Inl KeyError
         | Some slices \<Rightarrow>
             (case merge_slices (trajectory_slice td) slices of
                Inl e \<Rightarrow> Inl e
              | Inr slices' \<Rightarrow>
                  merge_new_trajectories rest device
                    (b\<lparr>slices_for_training :=
                         dict_set device slices' (slices_for_training b)\<rparr>))))"

definition on_new_trajectories ::
  "shuffle \<Rightarrow> trajectory_dict list \<Rightarrow> device \<Rightarrow> Batcher \<Rightarrow> error + Batcher" where
  "on_new_trajectories shuffle trajectory_dicts device b =
     (case merge_new_trajectories trajectory_dicts device b of
        Inl e \<Rightarrow> Inl e
      | Inr b' \<Rightarrow> maybe_enqueue_new_training_batches shuffle b')"

definition on_training_batch_released :: "shuffle \<Rightarrow> nat \<Rightarrow> int \<Rightarrow> Batcher \<Rightarrow> error + Batcher" where
  "on_training_batch_released shuffle batch_idx iteration b =
     (case (if \<not> async_rl (cfg b)
            then release_traj_tensors batch_idx (b\<lparr>training_iteration := iteration\<rparr>)
            else Inr (b\<lparr>training_iteration := iteration\<rparr>)) of
        Inl e \<Rightarrow> Inl e
      | Inr b1 \<Rightarrow>
          (let b2 = (if available_batches b1 = [] \<and> async_rl (cfg b1)
                     then emit ResumeExperienceCollection b1 else b1)
           in maybe_enqueue_new_training_batches shuffle
                (b2\<lparr>available_batches := available_batches b2 @ [batch_idx]\<rparr>)))"

lemma indices_Cons: "ranges m = s # rest \<Longrightarrow> indices m = slice_indices s \<union> (\<Union>t \<in> set rest. slice_indices t)"
  by (simp add: indices_def)

lemma get_at_most_none: "ranges m = [] \<Longrightarrow> get_at_most n m = Inr (None, m)"
  by (simp add: get_at_most_def ranges_def)

lemma get_at_most_some:
  assumes c: "consistent m" and n: "1 \<le> n" and ne: "ranges m \<noteq> []"
  shows "\<exists>r m'. get_at_most n m = Inr (Some r, m') \<and> consistent m' \<and>
           start r < stop r \<and> slice_len r \<le> n \<and>
           total_num m' = total_num m - slice_len r \<and>
           indices m = slice_indices r \<union> indices m' \<and>
           slice_indices r \<inter> indices m' = {} \<and>
           (no_shared_boundary m \<longrightarrow> no_shared_boundary m')"
proof -
  from ne obtain s rest where r: "ranges m = s # rest" by (cases "ranges m") auto
  let ?r = "\<lparr>start = start s, stop = min (stop s) (start s + n)\<rparr>"
  let ?rem = "\<lparr>start = start s + n, stop = stop s\<rparr>"
  from get_at_most_ok [OF c n] r obtain m' where
    g: "get_at_most n m = Inr (Some ?r, m')" and c': "consistent m'"
    and r': "ranges m' = rest @ (if n < slice_len s then [?rem] else [])"
    and t: "total_num m' = total_num m - min n (slice_len s)"
    and nsb: "no_shared_boundary m \<longrightarrow> no_shared_boundary m'"
    by auto
  have s: "s \<in> set (ranges m)" by (simp add: r)
  have sne: "start s < stop s" using consistentD(6) [OF c s] .
  have len: "slice_len ?r = min n (slice_len s)" by (simp add: slice_len_def min_def)
  have rest: "slice_indices s \<inter> slice_indices t = {}" if "t \<in> set rest" for t
  proof -
    have t: "t \<in> set (ranges m)" using that by (simp add: r)
    moreover have "s \<noteq> t" using distinct_ranges [OF c] that by (auto simp: r)
    ultimately have "\<not> overlapping s t" using consistentD(7) [OF c s] by blast
    then show ?thesis using overlapping_iff [OF sne consistentD(6) [OF c t]] by simp
  qed
  have rr: "slice_indices ?r \<subseteq> slice_indices s"
    using n by (auto simp: slice_indices_def)
  have un: "indices m = slice_indices ?r \<union> indices m'"
    and dis: "slice_indices ?r \<inter> indices m' = {}"
  proof -
    show "indices m = slice_indices ?r \<union> indices m'"
    proof (cases "n < slice_len s")
      case True
      then have "slice_indices s = slice_indices ?r \<union> slice_indices ?rem"
        using n by (auto simp: slice_indices_def slice_len_def)
      moreover have "indices m' = (\<Union>t \<in> set rest. slice_indices t) \<union> slice_indices ?rem"
        using True by (auto simp: indices_def r')
      ultimately show ?thesis unfolding indices_Cons [OF r] by blast
    next
      case False
      then have "slice_indices s = slice_indices ?r"
        by (simp add: slice_indices_def slice_len_def min_def)
      moreover have "indices m' = (\<Union>t \<in> set rest. slice_indices t)"
        using False by (simp add: indices_def r')
      ultimately show ?thesis unfolding indices_Cons [OF r] by blast
    qed
    show "slice_indices ?r \<inter> indices m' = {}"
    proof (cases "n < slice_len s")
      case True
      then have "slice_indices ?r \<inter> slice_indices ?rem = {}"
        by (auto simp: slice_indices_def slice_len_def)
      moreover have "indices m' = (\<Union>t \<in> set rest. slice_indices t) \<union> slice_indices ?rem"
        using True by (auto simp: indices_def r')
      ultimately show ?thesis using rest rr by blast
    next
      case False
      then have "indices m' = (\<Union>t \<in> set rest. slice_indices t)"
        by (simp add: indices_def r')
      then show ?thesis using rest rr by blast
    qed
  qed
  have "start ?r < stop ?r" using sne n by simp
  moreover have "slice_len ?r \<le> n" by (simp add: len)
  moreover have "total_num m' = total_num m - slice_len ?r" by (simp only: t len)
  ultimately show ?thesis using g c' nsb un dis by blast
qed

lemma write_rows_append:
  assumes "k + length r1 + length r2 \<le> length buf"
  shows "write_rows (k + length r1) r2 (write_rows k r1 buf) = write_rows k (r1 @ r2) buf"
  using assms by (simp add: write_rows_def ac_simps)

lemma write_rows_Nil: "k \<le> length buf \<Longrightarrow> write_rows k [] buf = buf"
  by (simp add: write_rows_def)

lemma length_write_rows:
  "k + length rows \<le> length buf \<Longrightarrow> length (write_rows k rows buf) = length buf"
  by (simp add: write_rows_def)

text \<open>The records of a list of released slices, in the order they were copied.\<close>

definition pending_rows :: "(device \<times> slice) list \<Rightarrow> (device \<times> int) list" where
  "pending_rows pending = concat (map (\<lambda>(device, s). map (Pair device) (slice_range s)) pending)"

lemma length_slice_range: "start s \<le> stop s \<Longrightarrow> int (length (slice_range s)) = slice_len s"
  by (simp add: slice_range_def slice_len_def)

lemma pending_rows_append [simp]: "pending_rows (p @ q) = pending_rows p @ pending_rows q"
  by (simp add: pending_rows_def)

lemma length_pending_rows:
  "\<forall>(d, s) \<in> set p. start s \<le> stop s \<Longrightarrow>
   int (length (pending_rows p)) = sum_list (map (\<lambda>(d, s). slice_len s) p)"
proof (induction p)
  case Nil
  show ?case by (simp add: pending_rows_def)
next
  case (Cons a p)
  obtain d s where a: "a = (d, s)" by (cases a)
  have "pending_rows (a # p) = map (Pair d) (slice_range s) @ pending_rows p"
    by (simp add: pending_rows_def a)
  with Cons a show ?case by (simp add: length_slice_range)
qed

lemma dict_set_triv: "dict_get d k = Some v \<Longrightarrow> dict_set k v d = d"
  by (simp add: dict_get_def dict_set_def update_triv)

lemma dict_set_twice [simp]: "dict_set k v (dict_set k v' d) = dict_set k v d"
  by (simp add: dict_set_def)

lemma copy_to_batch_ok:
  assumes "i < length (training_batches b)" and "i < length (traj_tensors_to_release b)"
    and "0 \<le> c" and "start s \<le> stop s"
    and "c + slice_len s \<le> int (length (training_batches b ! i))"
  shows "copy_to_batch i d s c b =
     Inr (b\<lparr>training_batches := (training_batches b)
              [i := write_rows (nat c) (map (Pair d) (slice_range s)) (training_batches b ! i)],
            traj_tensors_to_release := (traj_tensors_to_release b)
              [i := traj_tensors_to_release b ! i @ [(d, s)]]\<rparr>)"
  using assms length_slice_range [OF assms(4)]
  by (simp add: copy_to_batch_def copy_rows_def)

lemma fill_from_device_ok:
  assumes "dict_get (slices_for_training b) d = Some m" and "consistent m"
    and "i < length (training_batches b)" and "i < length (traj_tensors_to_release b)"
    and "length (training_batches b ! i) = nat (traj_per_training_iteration b)"
    and "0 \<le> c" and "c \<le> traj_per_training_iteration b"
  shows "\<exists>c' b' new m'. fill_from_device i d c b = Inr (c', b') \<and>
     c' = c + sum_list (map slice_len new) \<and> c' \<le> traj_per_training_iteration b \<and>
     slices_for_training b' = dict_set d m' (slices_for_training b) \<and>
     training_batches b' = (training_batches b)
       [i := write_rows (nat c) (pending_rows (map (Pair d) new)) (training_batches b ! i)] \<and>
     traj_tensors_to_release b' = (traj_tensors_to_release b)
       [i := traj_tensors_to_release b ! i @ map (Pair d) new] \<and>
     consistent m' \<and> list_all nonempty new \<and>
     (c' = traj_per_training_iteration b \<or> ranges m' = []) \<and>
     total_num m' = total_num m - sum_list (map slice_len new) \<and>
     pairwise_disjoint new \<and>
     indices m = (\<Union>s \<in> set new. slice_indices s) \<union> indices m' \<and>
     (\<Union>s \<in> set new. slice_indices s) \<inter> indices m' = {}"
  using assms
proof (induction i d c b arbitrary: m rule: fill_from_device.induct)
  case (1 i d c b)
  let ?B = "traj_per_training_iteration b"
  let ?buf = "training_batches b ! i"
  note m = \<open>dict_get (slices_for_training b) d = Some m\<close> and cm = \<open>consistent m\<close>
    and i1 = \<open>i < length (training_batches b)\<close> and i2 = \<open>i < length (traj_tensors_to_release b)\<close>
    and len = \<open>length ?buf = nat ?B\<close> and c0 = \<open>0 \<le> c\<close> and cB = \<open>c \<le> ?B\<close>
  have stay: ?case if res: "fill_from_device i d c b = Inr (c, b)"
    and fin: "c = ?B \<or> ranges m = []"
  proof -
    have "slices_for_training b = dict_set d m (slices_for_training b)"
      using dict_set_triv [OF m] by simp
    moreover have "training_batches b = (training_batches b)
        [i := write_rows (nat c) (pending_rows (map (Pair d) [])) ?buf]"
      using c0 cB len by (simp add: pending_rows_def write_rows_Nil)
    moreover have "traj_tensors_to_release b = (traj_tensors_to_release b)
        [i := traj_tensors_to_release b ! i @ map (Pair d) []]"
      by simp
    moreover have "indices m = (\<Union>s \<in> set []. slice_indices s) \<union> indices m"
      and "(\<Union>s \<in> set []. slice_indices s) \<inter> indices m = {}" by simp_all
    ultimately show ?thesis
      using res fin cm cB
      by (intro exI [of _ c] exI [of _ b] exI [of _ "[]"] exI [of _ m]) simp
  qed
  show ?case
  proof (cases "0 < ?B - c")
    case False
    then have "fill_from_device i d c b = Inr (c, b)"
      using m by (simp add: fill_from_device.simps [of i d c b])
    moreover have "c = ?B" using False cB by simp
    ultimately show ?thesis by (intro stay) simp_all
  next
    case True
    show ?thesis
    proof (cases "ranges m = []")
      case True
      then have "fill_from_device i d c b = Inr (c, b)"
        using m \<open>0 < ?B - c\<close>
        by (simp add: fill_from_device.simps [of i d c b] get_at_most_none)
      then show ?thesis using True by (intro stay) simp_all
    next
      case False
      from True have n: "1 \<le> ?B - c" by simp
      from get_at_most_some [OF cm n False] obtain r m1 where
        g: "get_at_most (?B - c) m = Inr (Some r, m1)" and cm1: "consistent m1"
        and rne: "start r < stop r" and rlen: "slice_len r \<le> ?B - c"
        and t1: "total_num m1 = total_num m - slice_len r"
        and un1: "indices m = slice_indices r \<union> indices m1"
        and dis1: "slice_indices r \<inter> indices m1 = {}" by blast
      let ?b1 = "b\<lparr>slices_for_training := dict_set d m1 (slices_for_training b)\<rparr>"
      let ?rows = "map (Pair d) (slice_range r)"
      let ?b2 = "?b1\<lparr>training_batches := (training_batches b)
              [i := write_rows (nat c) ?rows ?buf],
            traj_tensors_to_release := (traj_tensors_to_release b)
              [i := traj_tensors_to_release b ! i @ [(d, r)]]\<rparr>"
      have lr: "int (length ?rows) = slice_len r"
        using rne by (simp add: length_slice_range)
      have fits: "c + slice_len r \<le> int (length ?buf)" using rlen len cB c0 by simp
      have cp: "copy_to_batch i d r c ?b1 = Inr ?b2"
        using copy_to_batch_ok [of i ?b1 c r d] i1 i2 c0 rne fits by simp
      have m2: "dict_get (slices_for_training ?b2) d = Some m1"
        by (simp add: dict_get_set_same)
      have "nat c + length ?rows \<le> length ?buf" using fits lr c0 by linarith
      then have "length (write_rows (nat c) ?rows ?buf) = length ?buf"
        by (rule length_write_rows)
      then have len2: "length (training_batches ?b2 ! i) = nat (traj_per_training_iteration ?b2)"
        using i1 len by simp
      have pos: "0 < slice_len r" using rne by (simp add: slice_len_def)
      have "\<exists>c' b' new m'. fill_from_device i d (c + slice_len r) ?b2 = Inr (c', b') \<and>
         c' = c + slice_len r + sum_list (map slice_len new) \<and>
         c' \<le> traj_per_training_iteration ?b2 \<and>
         slices_for_training b' = dict_set d m' (slices_for_training ?b2) \<and>
         training_batches b' = (training_batches ?b2)
           [i := write_rows (nat (c + slice_len r)) (pending_rows (map (Pair d) new))
              (training_batches ?b2 ! i)] \<and>
         traj_tensors_to_release b' = (traj_tensors_to_release ?b2)
           [i := traj_tensors_to_release ?b2 ! i @ map (Pair d) new] \<and>
         consistent m' \<and> list_all nonempty new \<and>
         (c' = traj_per_training_iteration ?b2 \<or> ranges m' = []) \<and>
         total_num m' = total_num m1 - sum_list (map slice_len new) \<and>
         pairwise_disjoint new \<and>
         indices m1 = (\<Union>s \<in> set new. slice_indices s) \<union> indices m' \<and>
         (\<Union>s \<in> set new. slice_indices s) \<inter> indices m' = {}"
        using m True g cp m2 cm1 i1 i2 len2 c0 pos rlen
        by (intro "1.IH" [where ?x2.0 = m and ?ba = "(Some r, m1)" and ?xa = "Some r"
              and ?y = m1 and ?x = "?B - c"]) simp_all
      then obtain c' b' new m' where
        run: "fill_from_device i d (c + slice_len r) ?b2 = Inr (c', b')"
        and c': "c' = c + slice_len r + sum_list (map slice_len new)" "c' \<le> ?B"
        and sft: "slices_for_training b' = dict_set d m' (slices_for_training ?b2)"
        and tb: "training_batches b' = (training_batches ?b2)
           [i := write_rows (nat (c + slice_len r)) (pending_rows (map (Pair d) new))
              (training_batches ?b2 ! i)]"
        and ttr: "traj_tensors_to_release b' = (traj_tensors_to_release ?b2)
           [i := traj_tensors_to_release ?b2 ! i @ map (Pair d) new]"
        and rest: "consistent m'" "list_all nonempty new"
          "c' = ?B \<or> ranges m' = []"
          "total_num m' = total_num m1 - sum_list (map slice_len new)"
          "pairwise_disjoint new"
        and un2: "indices m1 = (\<Union>s \<in> set new. slice_indices s) \<union> indices m'"
        and dis2: "(\<Union>s \<in> set new. slice_indices s) \<inter> indices m' = {}"
        by auto
      have res: "fill_from_device i d c b = Inr (c', b')"
        using m True g cp run by (simp add: fill_from_device.simps [of i d c b])
      have newlen: "int (length (pending_rows (map (Pair d) new))) = sum_list (map slice_len new)"
      proof -
        have "\<forall>(d, s) \<in> set (map (Pair d) new). start s \<le> stop s"
          using rest(2) by (auto simp: list_all_iff nonempty_def)
        from length_pending_rows [OF this] show ?thesis by (simp add: comp_def)
      qed
      have "write_rows (nat (c + slice_len r)) (pending_rows (map (Pair d) new))
          (write_rows (nat c) ?rows ?buf) =
        write_rows (nat c) (?rows @ pending_rows (map (Pair d) new)) ?buf"
      proof -
        have "nat (c + slice_len r) = nat c + length ?rows"
          using c0 pos lr by (simp add: nat_add_distrib)
        moreover have "nat c + length ?rows + length (pending_rows (map (Pair d) new)) \<le>
            length ?buf"
          using c'(1,2) len newlen lr c0 by simp
        ultimately show ?thesis by (simp only: write_rows_append)
      qed
      then have tb': "training_batches b' = (training_batches b)
          [i := write_rows (nat c) (pending_rows (map (Pair d) (r # new))) ?buf]"
        using tb i1 by (simp add: pending_rows_def)
      have ttr': "traj_tensors_to_release b' = (traj_tensors_to_release b)
          [i := traj_tensors_to_release b ! i @ map (Pair d) (r # new)]"
        using ttr i2 by simp
      have sft': "slices_for_training b' = dict_set d m' (slices_for_training b)"
        using sft by simp
      have pd: "pairwise_disjoint (r # new)"
        using rest(5) un2 dis1 by auto
      have un: "indices m = (\<Union>s \<in> set (r # new). slice_indices s) \<union> indices m'"
        using un1 un2 by auto
      have dis: "(\<Union>s \<in> set (r # new). slice_indices s) \<inter> indices m' = {}"
        using dis1 dis2 un2 by auto
      have "c' = c + sum_list (map slice_len (r # new))" using c'(1) by simp
      moreover have "list_all nonempty (r # new)" using rest(2) rne by (simp add: nonempty_def)
      moreover have "total_num m' = total_num m - sum_list (map slice_len (r # new))"
        using rest(4) t1 by simp
      ultimately show ?thesis
        using res c'(2) sft' tb' ttr' rest(1,3) pd un dis
        by (intro exI [of _ c'] exI [of _ b'] exI [of _ "r # new"] exI [of _ m']) blast
    qed
  qed
qed

subsection \<open>Slots held by the training SliceMergers and by pending releases\<close>

definition mergers_ok :: "Batcher \<Rightarrow> bool" where
  "mergers_ok b \<longleftrightarrow>
     distinct (map fst (slices_for_training b)) \<and>
     (\<forall>(d, m) \<in> set (slices_for_training b). consistent m)"

text \<open>The slots, as pairs of device and index, that wait in the training SliceMergers.\<close>

definition training_slots :: "Batcher \<Rightarrow> (device \<times> int) set" where
  "training_slots b = (\<Union>(d, m) \<in> set (slices_for_training b). {d} \<times> indices m)"

lemma set_pending_rows:
  "set (pending_rows p) = (\<Union>(d, s) \<in> set p. {d} \<times> slice_indices s)"
  by (auto simp: pending_rows_def)

lemma distinct_slice_range: "distinct (slice_range s)"
  by (simp add: slice_range_def)

lemma distinct_pending_rows_device:
  "pairwise_disjoint new \<Longrightarrow> distinct (pending_rows (map (Pair d) new))"
proof (induction new)
  case Nil
  show ?case by (simp add: pending_rows_def)
next
  case (Cons s new)
  have "pending_rows (map (Pair d) (s # new)) =
      map (Pair d) (slice_range s) @ pending_rows (map (Pair d) new)"
    by (simp add: pending_rows_def)
  moreover have "distinct (map (Pair d) (slice_range s))"
    by (simp add: distinct_map distinct_slice_range inj_on_def)
  moreover have "set (map (Pair d) (slice_range s)) \<inter> set (pending_rows (map (Pair d) new)) = {}"
    using Cons.prems by (auto simp: set_pending_rows)
  ultimately show ?case using Cons by simp
qed

lemma set_update_present:
  assumes "distinct (map fst al)" and "map_of al k = Some v"
  shows "set (AList.update k v' al) = insert (k, v') (set al - {(k, v)})"
  using assms
proof (induction al)
  case Nil
  then show ?case by simp
next
  case (Cons p al)
  obtain k0 v0 where p: "p = (k0, v0)" by (cases p)
  show ?case
  proof (cases "k0 = k")
    case True
    with Cons.prems p have v0: "v0 = v" and notin: "k \<notin> fst ` set al" by simp_all
    from notin have "(k, v) \<notin> set al" by force
    then have "set al - {(k, v)} = set al" by simp
    with True v0 p show ?thesis by simp
  next
    case False
    with Cons.prems p have "distinct (map fst al)" and "map_of al k = Some v" by simp_all
    then have "set (AList.update k v' al) = insert (k, v') (set al - {(k, v)})"
      by (rule Cons.IH)
    moreover have "(k0, v0) \<noteq> (k, v)" using False by simp
    ultimately show ?thesis using False p by (simp add: insert_Diff_if insert_commute)
  qed
qed

lemma sum_list_update_present:
  fixes f :: "'k \<times> 'v \<Rightarrow> int"
  assumes "distinct (map fst al)" and "map_of al k = Some v"
  shows "sum_list (map f (AList.update k v' al)) = sum_list (map f al) - f (k, v) + f (k, v')"
  using assms
proof (induction al)
  case Nil
  then show ?case by simp
next
  case (Cons p al)
  obtain k0 v0 where p: "p = (k0, v0)" by (cases p)
  show ?case
  proof (cases "k0 = k")
    case True
    with Cons.prems p have "v0 = v" by simp
    with True p show ?thesis by simp
  next
    case False
    with Cons.prems p have "distinct (map fst al)" and "map_of al k = Some v" by simp_all
    then have "sum_list (map f (AList.update k v' al)) =
        sum_list (map f al) - f (k, v) + f (k, v')"
      by (rule Cons.IH)
    with False p show ?thesis by simp
  qed
qed

lemma training_slots_iff:
  assumes "mergers_ok b"
  shows "(d, k) \<in> training_slots b \<longleftrightarrow>
    (\<exists>m. dict_get (slices_for_training b) d = Some m \<and> k \<in> indices m)"
proof -
  have dist: "distinct (map fst (slices_for_training b))"
    using assms by (simp add: mergers_ok_def)
  have "(d, k) \<in> training_slots b \<longleftrightarrow>
      (\<exists>m. (d, m) \<in> set (slices_for_training b) \<and> k \<in> indices m)"
    by (auto simp: training_slots_def)
  also have "\<dots> \<longleftrightarrow> (\<exists>m. map_of (slices_for_training b) d = Some m \<and> k \<in> indices m)"
    using dist by (simp add: map_of_eq_Some_iff)
  finally show ?thesis by (simp add: dict_get_def)
qed

lemma mergers_ok_update:
  assumes ok: "mergers_ok b" and m: "dict_get (slices_for_training b) d = Some m"
    and sft: "slices_for_training b' = dict_set d m' (slices_for_training b)"
    and c: "consistent m'"
  shows "mergers_ok b'" and "map fst (slices_for_training b') = map fst (slices_for_training b)"
    and "training_slots b' = (training_slots b - {d} \<times> indices m) \<union> {d} \<times> indices m'"
    and "total_num_trajectories b' = total_num_trajectories b - total_num m + total_num m'"
    and "\<And>d'. d' \<noteq> d \<Longrightarrow>
      dict_get (slices_for_training b') d' = dict_get (slices_for_training b) d'"
    and "dict_get (slices_for_training b') d = Some m'"
proof -
  let ?al = "slices_for_training b"
  have dist: "distinct (map fst ?al)" using ok by (simp add: mergers_ok_def)
  have mo: "map_of ?al d = Some m" using m by (simp add: dict_get_def)
  then have din: "d \<in> fst ` set ?al" by (force dest: map_of_SomeD)
  show keys: "map fst (slices_for_training b') = map fst ?al"
    using din by (simp add: sft dict_set_def update_keys)
  have set': "set (slices_for_training b') = insert (d, m') (set ?al - {(d, m)})"
    using set_update_present [OF dist mo] by (simp add: sft dict_set_def)
  have "\<forall>p \<in> set (slices_for_training b'). consistent (snd p)"
    using ok c unfolding set' mergers_ok_def by auto
  then show ok': "mergers_ok b'"
    using dist unfolding mergers_ok_def keys by (simp add: case_prod_unfold)
  show other: "dict_get (slices_for_training b') d' = dict_get ?al d'" if "d' \<noteq> d" for d'
    using that by (simp add: sft dict_get_def dict_set_def update_conv')
  show same: "dict_get (slices_for_training b') d = Some m'"
    by (simp add: sft dict_get_set_same)
  show "training_slots b' = (training_slots b - {d} \<times> indices m) \<union> {d} \<times> indices m'"
  proof (intro set_eqI)
    fix x :: "device \<times> int"
    obtain d' k where x: "x = (d', k)" by (cases x)
    show "x \<in> training_slots b' \<longleftrightarrow>
        x \<in> (training_slots b - {d} \<times> indices m) \<union> {d} \<times> indices m'"
    proof (cases "d' = d")
      case True
      then show ?thesis
        unfolding x by (simp add: training_slots_iff [OF ok'] training_slots_iff [OF ok] same m)
    next
      case False
      then show ?thesis
        unfolding x
        by (simp add: training_slots_iff [OF ok'] training_slots_iff [OF ok] other)
    qed
  qed
  show "total_num_trajectories b' = total_num_trajectories b - total_num m + total_num m'"
    using sum_list_update_present [OF dist mo, of "\<lambda>(device, slices). total_num slices" m']
    by (simp add: total_num_trajectories_def sft dict_set_def)
qed

lemma empty_merger_total: "consistent m \<Longrightarrow> ranges m = [] \<Longrightarrow> total_num m = 0"
  using consistentD(8) [of m] by (simp add: recount_def)

lemma slots_move:
  assumes "M = A \<union> M'" and "A \<inter> M' = {}" and "M \<subseteq> T" and "T' = (T - M) \<union> M'"
  shows "T = A \<union> T'" and "A \<inter> T' = {}"
  using assms by blast+

text \<open>
  The inner loop on a Batcher whose training SliceMergers are consistent: it returns, and
  the slots it copies move from the SliceMerger of the device to the buffer and to the
  pending list of the batch.
\<close>

lemma fill_from_device_slots:
  assumes ok: "mergers_ok b" and d: "d \<in> set (map fst (slices_for_training b))"
    and i1: "i < length (training_batches b)" and i2: "i < length (traj_tensors_to_release b)"
    and len: "length (training_batches b ! i) = nat (traj_per_training_iteration b)"
    and c0: "0 \<le> c" and cB: "c \<le> traj_per_training_iteration b"
  shows "\<exists>c' b' new. fill_from_device i d c b = Inr (c', b') \<and>
     c' = c + sum_list (map (\<lambda>(d, s). slice_len s) new) \<and>
     c' \<le> traj_per_training_iteration b \<and>
     mergers_ok b' \<and>
     map fst (slices_for_training b') = map fst (slices_for_training b) \<and>
     training_batches b' = (training_batches b)
       [i := write_rows (nat c) (pending_rows new) (training_batches b ! i)] \<and>
     traj_tensors_to_release b' = (traj_tensors_to_release b)
       [i := traj_tensors_to_release b ! i @ new] \<and>
     (\<forall>(d, s) \<in> set new. start s < stop s) \<and>
     total_num_trajectories b' = total_num_trajectories b -
       sum_list (map (\<lambda>(d, s). slice_len s) new) \<and>
     (c' = traj_per_training_iteration b \<or>
      (\<exists>m'. dict_get (slices_for_training b') d = Some m' \<and> ranges m' = [])) \<and>
     (\<forall>d'. d' \<noteq> d \<longrightarrow>
        dict_get (slices_for_training b') d' = dict_get (slices_for_training b) d') \<and>
     distinct (pending_rows new) \<and>
     training_slots b = set (pending_rows new) \<union> training_slots b' \<and>
     set (pending_rows new) \<inter> training_slots b' = {}"
proof -
  from d have "map_of (slices_for_training b) d \<noteq> None"
    by (simp add: map_of_eq_None_iff)
  then obtain m where m: "dict_get (slices_for_training b) d = Some m"
    by (auto simp: dict_get_def)
  then have "(d, m) \<in> set (slices_for_training b)"
    by (simp add: dict_get_def map_of_SomeD)
  with ok have cm: "consistent m" by (auto simp: mergers_ok_def)
  from fill_from_device_ok [OF m cm i1 i2 len c0 cB] obtain c' b' new m' where
    run: "fill_from_device i d c b = Inr (c', b')"
    and c': "c' = c + sum_list (map slice_len new)" "c' \<le> traj_per_training_iteration b"
    and sft: "slices_for_training b' = dict_set d m' (slices_for_training b)"
    and tb: "training_batches b' = (training_batches b)
       [i := write_rows (nat c) (pending_rows (map (Pair d) new)) (training_batches b ! i)]"
    and ttr: "traj_tensors_to_release b' = (traj_tensors_to_release b)
       [i := traj_tensors_to_release b ! i @ map (Pair d) new]"
    and cm': "consistent m'" and ne: "list_all nonempty new"
    and fin: "c' = traj_per_training_iteration b \<or> ranges m' = []"
    and tot: "total_num m' = total_num m - sum_list (map slice_len new)"
    and pd: "pairwise_disjoint new"
    and un: "indices m = (\<Union>s \<in> set new. slice_indices s) \<union> indices m'"
    and dis: "(\<Union>s \<in> set new. slice_indices s) \<inter> indices m' = {}"
    by (elim exE conjE) (rule that)
  note upd = mergers_ok_update [OF ok m sft cm']
  let ?new = "map (Pair d) new"
  let ?A = "{d} \<times> (\<Union>s \<in> set new. slice_indices s)"
  have sum: "sum_list (map (\<lambda>(d, s). slice_len s) ?new) = sum_list (map slice_len new)"
    by (simp add: comp_def)
  have rows: "set (pending_rows ?new) = ?A"
    by (auto simp: set_pending_rows)
  have M: "{d} \<times> indices m = ?A \<union> {d} \<times> indices m'"
    unfolding un by (rule Sigma_Un_distrib2)
  have AM': "?A \<inter> {d} \<times> indices m' = {}"
    using dis by blast
  have sub: "{d} \<times> indices m \<subseteq> training_slots b"
  proof
    fix x assume "x \<in> {d} \<times> indices m"
    then obtain k where "x = (d, k)" "k \<in> indices m" by auto
    then show "x \<in> training_slots b" using training_slots_iff [OF ok] m by simp
  qed
  have f1: "training_slots b = set (pending_rows ?new) \<union> training_slots b'"
    and f2: "set (pending_rows ?new) \<inter> training_slots b' = {}"
    using slots_move [OF M AM' sub upd(3)] unfolding rows by simp_all
  have f3: "\<forall>(d, s) \<in> set ?new. start s < stop s"
    using ne by (auto simp: list_all_iff nonempty_def)
  have f4: "c' = traj_per_training_iteration b \<or>
      (\<exists>m'. dict_get (slices_for_training b') d = Some m' \<and> ranges m' = [])"
    using fin upd(6) by blast
  have f5: "total_num_trajectories b' = total_num_trajectories b -
      sum_list (map (\<lambda>(d, s). slice_len s) ?new)"
    unfolding sum upd(4) tot by simp
  have f6: "c' = c + sum_list (map (\<lambda>(d, s). slice_len s) ?new)"
    unfolding sum by (rule c'(1))
  have f7: "\<forall>d'. d' \<noteq> d \<longrightarrow>
      dict_get (slices_for_training b') d' = dict_get (slices_for_training b) d'"
    using upd(5) by blast
  note f8 = distinct_pending_rows_device [OF pd, of d]
  show ?thesis
    by (intro exI [of _ c'] exI [of _ b'] exI [of _ ?new] conjI)
      (fact run f6 c'(2) upd(1) upd(2) tb ttr f3 f5 f4 f7 f8 f1 f2)+
qed

lemma slots_move_twice:
  assumes "T = R1 \<union> T1" and "R1 \<inter> T1 = {}" and "T1 = R2 \<union> T'" and "R2 \<inter> T' = {}"
  shows "T = (R1 \<union> R2) \<union> T'" and "(R1 \<union> R2) \<inter> T' = {}" and "R1 \<inter> R2 = {}"
  using assms by blast+

lemma fill_batch_slots:
  assumes "mergers_ok b" and "set ds \<subseteq> set (map fst (slices_for_training b))"
    and "distinct ds"
    and "i < length (training_batches b)" and "i < length (traj_tensors_to_release b)"
    and "length (training_batches b ! i) = nat (traj_per_training_iteration b)"
    and "0 \<le> c" and "c \<le> traj_per_training_iteration b"
  shows "\<exists>c' b' new. fill_batch i ds c b = Inr (c', b') \<and>
     c' = c + sum_list (map (\<lambda>(d, s). slice_len s) new) \<and>
     c' \<le> traj_per_training_iteration b \<and>
     mergers_ok b' \<and>
     map fst (slices_for_training b') = map fst (slices_for_training b) \<and>
     training_batches b' = (training_batches b)
       [i := write_rows (nat c) (pending_rows new) (training_batches b ! i)] \<and>
     traj_tensors_to_release b' = (traj_tensors_to_release b)
       [i := traj_tensors_to_release b ! i @ new] \<and>
     (\<forall>(d, s) \<in> set new. start s < stop s) \<and>
     total_num_trajectories b' = total_num_trajectories b -
       sum_list (map (\<lambda>(d, s). slice_len s) new) \<and>
     (c' = traj_per_training_iteration b \<or>
      (\<forall>d \<in> set ds. \<exists>m'. dict_get (slices_for_training b') d = Some m' \<and> ranges m' = [])) \<and>
     (\<forall>d'. d' \<notin> set ds \<longrightarrow>
        dict_get (slices_for_training b') d' = dict_get (slices_for_training b) d') \<and>
     distinct (pending_rows new) \<and>
     training_slots b = set (pending_rows new) \<union> training_slots b' \<and>
     set (pending_rows new) \<inter> training_slots b' = {}"
  using assms
proof (induction ds arbitrary: c b)
  case Nil
  let ?buf = "training_batches b ! i"
  have "nat c \<le> length ?buf" using Nil.prems by simp
  then have g1: "training_batches b = (training_batches b)
      [i := write_rows (nat c) (pending_rows []) ?buf]"
    by (simp add: pending_rows_def write_rows_Nil)
  have g2: "traj_tensors_to_release b = (traj_tensors_to_release b)
      [i := traj_tensors_to_release b ! i @ []]" by simp
  have g3: "fill_batch i [] c b = Inr (c, b)" by simp
  have g4: "c = c + sum_list (map (\<lambda>(d, s). slice_len s) [])" by simp
  have g5: "\<forall>(d, s) \<in> set ([] :: (device \<times> slice) list). start s < stop s" by simp
  have g6: "total_num_trajectories b = total_num_trajectories b -
      sum_list (map (\<lambda>(d, s). slice_len s) [])" by simp
  have g7: "c = traj_per_training_iteration b \<or>
      (\<forall>d \<in> set []. \<exists>m'. dict_get (slices_for_training b) d = Some m' \<and> ranges m' = [])"
    by simp
  have g8: "\<forall>d'. d' \<notin> set [] \<longrightarrow>
      dict_get (slices_for_training b) d' = dict_get (slices_for_training b) d'" by simp
  have g9: "distinct (pending_rows [])" "training_slots b = set (pending_rows []) \<union> training_slots b"
    "set (pending_rows []) \<inter> training_slots b = {}"
    by (simp_all add: pending_rows_def)
  have g10: "map fst (slices_for_training b) = map fst (slices_for_training b)" by simp
  show ?case
    by (intro exI [of _ c] exI [of _ b] exI [of _ "[]"] conjI)
      (fact g1 g2 g3 g4 g5 g6 g7 g8 g9 g10 Nil.prems)+
next
  case (Cons d ds)
  let ?B = "traj_per_training_iteration b"
  let ?buf = "training_batches b ! i"
  let ?len = "\<lambda>new. sum_list (map (\<lambda>(d, s). slice_len s) new)"
  note ok = Cons.prems(1) and i1 = Cons.prems(4) and i2 = Cons.prems(5)
    and len = Cons.prems(6) and c0 = Cons.prems(7) and cB = Cons.prems(8)
  from Cons.prems have d: "d \<in> set (map fst (slices_for_training b))"
    and dnot: "d \<notin> set ds" and dist: "distinct ds"
    and sub: "set ds \<subseteq> set (map fst (slices_for_training b))" by simp_all
  from fill_from_device_slots [OF ok d i1 i2 len c0 cB] obtain c1 b1 new1 where
    run1: "fill_from_device i d c b = Inr (c1, b1)"
    and c1: "c1 = c + ?len new1" and c1B: "c1 \<le> ?B"
    and ok1: "mergers_ok b1"
    and keys1: "map fst (slices_for_training b1) = map fst (slices_for_training b)"
    and tb1: "training_batches b1 = (training_batches b)
       [i := write_rows (nat c) (pending_rows new1) ?buf]"
    and ttr1: "traj_tensors_to_release b1 = (traj_tensors_to_release b)
       [i := traj_tensors_to_release b ! i @ new1]"
    and ne1: "\<forall>(d, s) \<in> set new1. start s < stop s"
    and tot1: "total_num_trajectories b1 = total_num_trajectories b - ?len new1"
    and fin1: "c1 = ?B \<or>
      (\<exists>m'. dict_get (slices_for_training b1) d = Some m' \<and> ranges m' = [])"
    and oth1: "\<forall>d'. d' \<noteq> d \<longrightarrow>
        dict_get (slices_for_training b1) d' = dict_get (slices_for_training b) d'"
    and dr1: "distinct (pending_rows new1)"
    and T1: "training_slots b = set (pending_rows new1) \<union> training_slots b1"
    and D1: "set (pending_rows new1) \<inter> training_slots b1 = {}"
    by (elim exE conjE) (rule that)
  have B1: "traj_per_training_iteration b1 = ?B"
    using fill_from_device_frame [OF run1] by simp
  have l1: "int (length (pending_rows new1)) = ?len new1"
    using ne1 by (intro length_pending_rows) auto
  then have c1c: "nat c1 = nat c + length (pending_rows new1)"
    using c1 c0 by linarith
  have fits1: "nat c + length (pending_rows new1) \<le> length ?buf"
    using c1c c1B len by linarith
  have i1': "i < length (training_batches b1)" using i1 by (simp add: tb1)
  have i2': "i < length (traj_tensors_to_release b1)" using i2 by (simp add: ttr1)
  have buf1: "training_batches b1 ! i = write_rows (nat c) (pending_rows new1) ?buf"
    using i1 by (simp add: tb1)
  have len': "length (training_batches b1 ! i) = nat (traj_per_training_iteration b1)"
    unfolding buf1 B1 using length_write_rows [OF fits1] len by simp
  have c0': "0 \<le> c1" using c1 c0 l1 by linarith
  have sub': "set ds \<subseteq> set (map fst (slices_for_training b1))" using sub keys1 by simp
  have cB': "c1 \<le> traj_per_training_iteration b1" using c1B B1 by simp
  from Cons.IH [OF ok1 sub' dist i1' i2' len' c0' cB'] obtain c' b' new2 where
    run2: "fill_batch i ds c1 b1 = Inr (c', b')"
    and c2: "c' = c1 + ?len new2" and c2B: "c' \<le> traj_per_training_iteration b1"
    and ok2: "mergers_ok b'"
    and keys2: "map fst (slices_for_training b') = map fst (slices_for_training b1)"
    and tb2: "training_batches b' = (training_batches b1)
       [i := write_rows (nat c1) (pending_rows new2) (training_batches b1 ! i)]"
    and ttr2: "traj_tensors_to_release b' = (traj_tensors_to_release b1)
       [i := traj_tensors_to_release b1 ! i @ new2]"
    and ne2: "\<forall>(d, s) \<in> set new2. start s < stop s"
    and tot2: "total_num_trajectories b' = total_num_trajectories b1 - ?len new2"
    and fin2: "c' = traj_per_training_iteration b1 \<or>
      (\<forall>d \<in> set ds. \<exists>m'. dict_get (slices_for_training b') d = Some m' \<and> ranges m' = [])"
    and oth2: "\<forall>d'. d' \<notin> set ds \<longrightarrow>
        dict_get (slices_for_training b') d' = dict_get (slices_for_training b1) d'"
    and dr2: "distinct (pending_rows new2)"
    and T2: "training_slots b1 = set (pending_rows new2) \<union> training_slots b'"
    and D2: "set (pending_rows new2) \<inter> training_slots b' = {}"
    by (elim exE conjE) (rule that)
  let ?new = "new1 @ new2"
  have l2: "int (length (pending_rows new2)) = ?len new2"
    using ne2 by (intro length_pending_rows) auto
  have h1: "fill_batch i (d # ds) c b = Inr (c', b')" using run1 run2 by simp
  have h2: "c' = c + ?len ?new" using c1 c2 by simp
  have h3: "c' \<le> ?B" using c2B B1 by simp
  have h4: "map fst (slices_for_training b') = map fst (slices_for_training b)"
    using keys1 keys2 by simp
  have fits2: "nat c + length (pending_rows new1) + length (pending_rows new2) \<le> length ?buf"
    using c1c c2 l2 h3 len c0' by linarith
  have h5: "training_batches b' = (training_batches b)
       [i := write_rows (nat c) (pending_rows ?new) ?buf]"
    unfolding tb2 buf1 c1c write_rows_append [OF fits2] by (simp add: tb1)
  have h6: "traj_tensors_to_release b' = (traj_tensors_to_release b)
       [i := traj_tensors_to_release b ! i @ ?new]"
    unfolding ttr2 using i2 by (simp add: ttr1)
  have h7: "\<forall>(d, s) \<in> set ?new. start s < stop s" using ne1 ne2 by auto
  have h8: "total_num_trajectories b' = total_num_trajectories b - ?len ?new"
    using tot1 tot2 by simp
  have h9: "c' = ?B \<or>
      (\<forall>d \<in> set (d # ds). \<exists>m'. dict_get (slices_for_training b') d = Some m' \<and> ranges m' = [])"
  proof (cases "c' = ?B")
    case True
    then show ?thesis by simp
  next
    case False
    have "c1 \<le> c'" using c2 l2 by linarith
    with False h3 have "c1 \<noteq> ?B" by simp
    with fin1 obtain m' where "dict_get (slices_for_training b1) d = Some m'" "ranges m' = []"
      by blast
    then have "\<exists>m'. dict_get (slices_for_training b') d = Some m' \<and> ranges m' = []"
      using oth2 dnot by simp
    moreover have "\<forall>d \<in> set ds. \<exists>m'. dict_get (slices_for_training b') d = Some m' \<and>
        ranges m' = []"
      using fin2 False B1 by simp
    ultimately show ?thesis by simp
  qed
  have h10: "\<forall>d'. d' \<notin> set (d # ds) \<longrightarrow>
        dict_get (slices_for_training b') d' = dict_get (slices_for_training b) d'"
    using oth1 oth2 by simp
  note mv = slots_move_twice [OF T1 D1 T2 D2]
  have h11: "distinct (pending_rows ?new)" using dr1 dr2 mv(3) by simp
  have h12: "training_slots b = set (pending_rows ?new) \<union> training_slots b'"
    using mv(1) by simp
  have h13: "set (pending_rows ?new) \<inter> training_slots b' = {}"
    using mv(2) by simp
  show ?case
    by (intro exI [of _ c'] exI [of _ b'] exI [of _ ?new] conjI)
      (fact h1 h2 h3 ok2 h4 h5 h6 h7 h8 h9 h10 h11 h12 h13)+
qed

lemma sum_list_all_zero:
  fixes f :: "'a \<Rightarrow> int"
  shows "\<forall>x \<in> set xs. f x = 0 \<Longrightarrow> sum_list (map f xs) = 0"
  by (induction xs) simp_all

lemma drained_total:
  assumes ok: "mergers_ok b"
    and dr: "\<forall>d \<in> set (map fst (slices_for_training b)).
      \<exists>m. dict_get (slices_for_training b) d = Some m \<and> ranges m = []"
  shows "total_num_trajectories b = 0"
proof -
  have "total_num m = 0" if "(d, m) \<in> set (slices_for_training b)" for d m
  proof -
    have dist: "distinct (map fst (slices_for_training b))"
      using ok by (simp add: mergers_ok_def)
    have "dict_get (slices_for_training b) d = Some m"
      using map_of_is_SomeI [OF dist that] by (simp add: dict_get_def)
    moreover have "d \<in> set (map fst (slices_for_training b))" using that by force
    ultimately have "ranges m = []" using dr by force
    moreover have "consistent m" using ok that by (auto simp: mergers_ok_def)
    ultimately show ?thesis by (simp add: empty_merger_total)
  qed
  then have "\<forall>p \<in> set (slices_for_training b). (\<lambda>(device, slices). total_num slices) p = 0"
    by auto
  then show ?thesis
    unfolding total_num_trajectories_def by (rule sum_list_all_zero)
qed

lemma write_rows_full:
  "length rows = length buf \<Longrightarrow> write_rows 0 rows buf = map Some rows"
  by (simp add: write_rows_def)

text \<open>
  One batch, under the guard of the loop: the buffer is filled with exactly
  \<^verbatim>\<open>traj_per_training_iteration\<close> records, those of the slices now pending for the batch.
\<close>

lemma assemble_batch_ok:
  assumes sh: "is_shuffle shuffle" and ok: "mergers_ok b"
    and i1: "i < length (training_batches b)" and i2: "i < length (traj_tensors_to_release b)"
    and pend: "traj_tensors_to_release b ! i = []"
    and len: "length (training_batches b ! i) = nat (traj_per_training_iteration b)"
    and B0: "0 \<le> traj_per_training_iteration b"
    and guard: "traj_per_training_iteration b \<le> total_num_trajectories b"
  shows "\<exists>b1 new. assemble_batch shuffle i b = Inr (emit (TrainingBatchesAvailable i) b1) \<and>
     fill_batch i (shuffle (shuffle_calls b) (map fst (slices_for_training b))) 0
       (b\<lparr>shuffle_calls := Suc (shuffle_calls b)\<rparr>) = Inr (traj_per_training_iteration b, b1) \<and>
     mergers_ok b1 \<and>
     map fst (slices_for_training b1) = map fst (slices_for_training b) \<and>
     training_batches b1 = (training_batches b)[i := map Some (pending_rows new)] \<and>
     traj_tensors_to_release b1 = (traj_tensors_to_release b)[i := new] \<and>
     (\<forall>(d, s) \<in> set new. start s < stop s) \<and>
     sum_list (map (\<lambda>(d, s). slice_len s) new) = traj_per_training_iteration b \<and>
     int (length (pending_rows new)) = traj_per_training_iteration b \<and>
     total_num_trajectories b1 = total_num_trajectories b - traj_per_training_iteration b \<and>
     distinct (pending_rows new) \<and>
     training_slots b = set (pending_rows new) \<union> training_slots b1 \<and>
     set (pending_rows new) \<inter> training_slots b1 = {}"
proof -
  let ?B = "traj_per_training_iteration b"
  let ?keys = "map fst (slices_for_training b)"
  let ?ds = "shuffle (shuffle_calls b) ?keys"
  let ?b0 = "b\<lparr>shuffle_calls := Suc (shuffle_calls b)\<rparr>"
  let ?len = "\<lambda>new. sum_list (map (\<lambda>(d, s). slice_len s) new)"
  have ms: "mset ?ds = mset ?keys" using sh by (simp add: is_shuffle_def)
  have dk: "distinct ?keys" using ok by (simp add: mergers_ok_def)
  have dds: "distinct ?ds" using mset_eq_imp_distinct_iff [OF ms] dk by simp
  have sds: "set ?ds = set ?keys" using mset_eq_setD [OF ms] .
  have ok0: "mergers_ok ?b0" using ok by (simp add: mergers_ok_def)
  have sub0: "set ?ds \<subseteq> set (map fst (slices_for_training ?b0))" using sds by simp
  have i10: "i < length (training_batches ?b0)" and i20: "i < length (traj_tensors_to_release ?b0)"
    and len0: "length (training_batches ?b0 ! i) = nat (traj_per_training_iteration ?b0)"
    and c00: "(0::int) \<le> 0" and cB0: "0 \<le> traj_per_training_iteration ?b0"
    using i1 i2 len B0 by simp_all
  from fill_batch_slots [OF ok0 sub0 dds i10 i20 len0 c00 cB0] obtain c' b1 new where
    run: "fill_batch i ?ds 0 ?b0 = Inr (c', b1)"
    and c': "c' = 0 + ?len new" and c'B: "c' \<le> traj_per_training_iteration ?b0"
    and ok1: "mergers_ok b1"
    and keys: "map fst (slices_for_training b1) = map fst (slices_for_training ?b0)"
    and tb: "training_batches b1 = (training_batches ?b0)
       [i := write_rows (nat 0) (pending_rows new) (training_batches ?b0 ! i)]"
    and ttr: "traj_tensors_to_release b1 = (traj_tensors_to_release ?b0)
       [i := traj_tensors_to_release ?b0 ! i @ new]"
    and ne: "\<forall>(d, s) \<in> set new. start s < stop s"
    and tot: "total_num_trajectories b1 = total_num_trajectories ?b0 - ?len new"
    and fin: "c' = traj_per_training_iteration ?b0 \<or>
      (\<forall>d \<in> set ?ds. \<exists>m'. dict_get (slices_for_training b1) d = Some m' \<and> ranges m' = [])"
    and dr: "distinct (pending_rows new)"
    and T: "training_slots ?b0 = set (pending_rows new) \<union> training_slots b1"
    and D: "set (pending_rows new) \<inter> training_slots b1 = {}"
    by (elim exE conjE) (rule that)
  have tot0: "total_num_trajectories ?b0 = total_num_trajectories b"
    by (simp add: total_num_trajectories_def)
  have ts0: "training_slots ?b0 = training_slots b" by (simp add: training_slots_def)
  have cB: "c' = ?B"
  proof (rule ccontr)
    assume neq: "c' \<noteq> ?B"
    with fin have "\<forall>d \<in> set (map fst (slices_for_training b1)).
        \<exists>m'. dict_get (slices_for_training b1) d = Some m' \<and> ranges m' = []"
      using sds keys by simp
    from drained_total [OF ok1 this] tot tot0 c' have "c' = total_num_trajectories b" by simp
    with guard c'B neq show False by simp
  qed
  have B1: "traj_per_training_iteration b1 = ?B" using fill_batch_frame [OF run] by simp
  have res: "assemble_batch shuffle i b = Inr (emit (TrainingBatchesAvailable i) b1)"
    using i2 pend run cB B1 by (simp add: assemble_batch_def)
  have sum: "?len new = ?B" using c' cB by simp
  have "\<forall>(d, s) \<in> set new. start s \<le> stop s" using ne by auto
  from length_pending_rows [OF this] have l: "int (length (pending_rows new)) = ?B"
    using sum by simp
  then have "length (pending_rows new) = length (training_batches b ! i)"
    using len B0 by simp
  then have tb': "training_batches b1 = (training_batches b)[i := map Some (pending_rows new)]"
    using tb by (simp add: write_rows_full)
  have ttr': "traj_tensors_to_release b1 = (traj_tensors_to_release b)[i := new]"
    using ttr pend by simp
  have keys': "map fst (slices_for_training b1) = map fst (slices_for_training b)"
    using keys by simp
  have tot': "total_num_trajectories b1 = total_num_trajectories b - ?B"
    using tot tot0 sum by simp
  have T': "training_slots b = set (pending_rows new) \<union> training_slots b1"
    using T ts0 by simp
  have run': "fill_batch i ?ds 0 ?b0 = Inr (?B, b1)" using run cB by simp
  show ?thesis
    by (intro exI [of _ b1] exI [of _ new] conjI)
      (fact res run' ok1 keys' tb' ttr' ne sum l tot' dr T' D)+
qed

subsection \<open>Batch buffers in flight, and the invariant of the Batcher\<close>

text \<open>
  A batch buffer is in flight from \<^verbatim>\<open>training_batches_available\<close> until the learner hands
  it back: between two handler calls these are the buffers that are not free. Its slots
  are the slots whose records it holds.
\<close>

definition in_flight :: "Batcher \<Rightarrow> nat \<Rightarrow> bool" where
  "in_flight b i \<longleftrightarrow> i < length (training_batches b) \<and> i \<notin> set (available_batches b)"

definition batch_slots :: "Batcher \<Rightarrow> nat \<Rightarrow> (device \<times> int) set" where
  "batch_slots b i = {x. Some x \<in> set (training_batches b ! i)}"

definition pending_slots :: "Batcher \<Rightarrow> nat \<Rightarrow> (device \<times> int) set" where
  "pending_slots b i = set (pending_rows (traj_tensors_to_release b ! i))"

text \<open>The slots the Batcher holds: waiting in a training SliceMerger, or pending release.\<close>

definition held_slots :: "Batcher \<Rightarrow> (device \<times> int) set" where
  "held_slots b = training_slots b \<union>
     (\<Union>i \<in> {..<length (traj_tensors_to_release b)}. pending_slots b i)"

definition batcher_inv :: "Batcher \<Rightarrow> bool" where
  "batcher_inv b \<longleftrightarrow>
     mergers_ok b \<and>
     0 \<le> traj_per_training_iteration b \<and>
     length (training_batches b) = length (traj_tensors_to_release b) \<and>
     (\<forall>buf \<in> set (training_batches b). length buf = nat (traj_per_training_iteration b)) \<and>
     distinct (available_batches b) \<and>
     (\<forall>i \<in> set (available_batches b).
        i < length (traj_tensors_to_release b) \<and> traj_tensors_to_release b ! i = []) \<and>
     (\<forall>i < length (traj_tensors_to_release b).
        distinct (pending_rows (traj_tensors_to_release b ! i)) \<and>
        pending_slots b i \<inter> training_slots b = {}) \<and>
     (\<forall>i < length (traj_tensors_to_release b). \<forall>j < length (traj_tensors_to_release b).
        i \<noteq> j \<longrightarrow> pending_slots b i \<inter> pending_slots b j = {}) \<and>
     (if async_rl (cfg b)
      then \<forall>i < length (traj_tensors_to_release b). traj_tensors_to_release b ! i = []
      else \<forall>i < length (traj_tensors_to_release b). i \<notin> set (available_batches b) \<longrightarrow>
             training_batches b ! i = map Some (pending_rows (traj_tensors_to_release b ! i)))"

lemma batcher_invD:
  assumes "batcher_inv b"
  shows "mergers_ok b"
    and "0 \<le> traj_per_training_iteration b"
    and "length (training_batches b) = length (traj_tensors_to_release b)"
    and "\<And>i. i < length (training_batches b) \<Longrightarrow>
      length (training_batches b ! i) = nat (traj_per_training_iteration b)"
    and "distinct (available_batches b)"
    and "\<And>i. i \<in> set (available_batches b) \<Longrightarrow>
      i < length (traj_tensors_to_release b) \<and> traj_tensors_to_release b ! i = []"
    and "\<And>i. i < length (traj_tensors_to_release b) \<Longrightarrow>
      distinct (pending_rows (traj_tensors_to_release b ! i)) \<and>
      pending_slots b i \<inter> training_slots b = {}"
    and "\<And>i j. i < length (traj_tensors_to_release b) \<Longrightarrow>
      j < length (traj_tensors_to_release b) \<Longrightarrow> i \<noteq> j \<Longrightarrow>
      pending_slots b i \<inter> pending_slots b j = {}"
    and "\<And>i. async_rl (cfg b) \<Longrightarrow> i < length (traj_tensors_to_release b) \<Longrightarrow>
      traj_tensors_to_release b ! i = []"
    and "\<And>i. \<not> async_rl (cfg b) \<Longrightarrow> i < length (traj_tensors_to_release b) \<Longrightarrow>
      i \<notin> set (available_batches b) \<Longrightarrow>
      training_batches b ! i = map Some (pending_rows (traj_tensors_to_release b ! i))"
proof -
  note a = assms [unfolded batcher_inv_def]
  show "mergers_ok b" "0 \<le> traj_per_training_iteration b"
    "length (training_batches b) = length (traj_tensors_to_release b)"
    "distinct (available_batches b)"
    using a by blast+
  show "length (training_batches b ! i) = nat (traj_per_training_iteration b)"
    if "i < length (training_batches b)" for i
    using a that nth_mem by blast
  show "i < length (traj_tensors_to_release b) \<and> traj_tensors_to_release b ! i = []"
    if "i \<in> set (available_batches b)" for i using a that by blast
  show "distinct (pending_rows (traj_tensors_to_release b ! i)) \<and>
      pending_slots b i \<inter> training_slots b = {}"
    if "i < length (traj_tensors_to_release b)" for i using a that by blast
  show "pending_slots b i \<inter> pending_slots b j = {}"
    if "i < length (traj_tensors_to_release b)" "j < length (traj_tensors_to_release b)" "i \<noteq> j"
    for i j using a that by blast
  show "traj_tensors_to_release b ! i = []"
    if "async_rl (cfg b)" "i < length (traj_tensors_to_release b)" for i
    using a that by (simp split: if_splits)
  show "training_batches b ! i = map Some (pending_rows (traj_tensors_to_release b ! i))"
    if "\<not> async_rl (cfg b)" "i < length (traj_tensors_to_release b)"
      "i \<notin> set (available_batches b)" for i
    using a that by (simp split: if_splits)
qed

lemma fresh_mergers_fold:
  "distinct (map fst (fold (\<lambda>device. dict_set device SliceMerger_init) devices acc)) \<and>
   set (map snd (fold (\<lambda>device. dict_set device SliceMerger_init) devices acc)) \<subseteq>
     insert SliceMerger_init (set (map snd acc))"
  if "distinct (map fst acc)"
  using that
proof (induction devices arbitrary: acc)
  case Nil
  then show ?case by auto
next
  case (Cons d ds)
  let ?acc = "dict_set d SliceMerger_init acc"
  have d: "distinct (map fst ?acc)"
    using Cons.prems by (simp add: dict_set_def distinct_update)
  have s: "set (map snd ?acc) \<subseteq> insert SliceMerger_init (set (map snd acc))"
    unfolding dict_set_def by (induction acc) auto
  from Cons.IH [OF d] have "distinct (map fst (fold (\<lambda>device. dict_set device SliceMerger_init) ds ?acc))"
    and "set (map snd (fold (\<lambda>device. dict_set device SliceMerger_init) ds ?acc)) \<subseteq>
      insert SliceMerger_init (set (map snd ?acc))" by blast+
  with s show ?case by (simp only: fold_simps) blast
qed

lemma mergers_ok_new: "mergers_ok (Batcher_new pid mgr c)"
proof -
  have "distinct (map fst (fresh_mergers (traj_tensors_torch mgr)))"
    and "set (map snd (fresh_mergers (traj_tensors_torch mgr))) \<subseteq> {SliceMerger_init}"
    using fresh_mergers_fold [of "[]" "traj_tensors_torch mgr"]
    by (simp_all add: fresh_mergers_def)
  then show ?thesis
    using consistent_init by (fastforce simp: mergers_ok_def Batcher_new_def)
qed

lemma training_slots_new: "training_slots (Batcher_new pid mgr c) = {}"
proof -
  have "set (map snd (fresh_mergers (traj_tensors_torch mgr))) \<subseteq> {SliceMerger_init}"
    using fresh_mergers_fold [of "[]" "traj_tensors_torch mgr"]
    by (simp_all add: fresh_mergers_def)
  moreover have "indices SliceMerger_init = {}"
    by (simp add: indices_def ranges_def SliceMerger_init_def)
  ultimately show ?thesis
    by (fastforce simp: training_slots_def Batcher_new_def)
qed

text \<open>After \<^verbatim>\<open>__init__\<close> and \<^verbatim>\<open>init\<close> the invariant holds, for a non-negative batch size.\<close>

lemma batcher_inv_init:
  assumes "init (Batcher_new pid mgr c) = Inr b"
    and "0 \<le> trajectories_per_training_iteration mgr"
  shows "batcher_inv b"
proof -
  let ?n = "Batcher_new pid mgr c"
  let ?K = "nat (mgr_max_batches_to_accumulate mgr)"
  from assms(1) have b: "b = emit Initialized
      (?n\<lparr>training_batches := training_batches ?n @
           map (\<lambda>i. alloc_trajectory_tensors (traj_per_training_iteration ?n))
             (py_range (max_batches_to_accumulate ?n))\<rparr>)"
    by (auto simp: init_def split: sum.splits)
  have f: "slices_for_training b = slices_for_training ?n"
    "traj_per_training_iteration b = trajectories_per_training_iteration mgr"
    "training_batches b = replicate ?K (replicate (nat (trajectories_per_training_iteration mgr)) None)"
    "traj_tensors_to_release b = replicate ?K []"
    "available_batches b = [0..<?K]"
    unfolding b
    by (simp_all add: emit_def Batcher_new_def py_range_def alloc_trajectory_tensors_def
        map_replicate_const)
  have ok: "mergers_ok b" using mergers_ok_new [of pid mgr c] by (simp add: mergers_ok_def f)
  have ts: "training_slots b = {}"
    using training_slots_new [of pid mgr c] by (simp add: training_slots_def f)
  have ps: "pending_slots b i = {}" if "i < ?K" for i
    using that by (simp add: pending_slots_def f pending_rows_def)
  show ?thesis
    unfolding batcher_inv_def
    using ok assms(2) ts ps by (simp add: f pending_rows_def)
qed

lemma mergers_ok_cong:
  "slices_for_training b' = slices_for_training b \<Longrightarrow> mergers_ok b' = mergers_ok b"
  by (simp add: mergers_ok_def)

lemma training_slots_cong:
  "slices_for_training b' = slices_for_training b \<Longrightarrow> training_slots b' = training_slots b"
  by (simp add: training_slots_def)

lemma total_num_trajectories_cong:
  "slices_for_training b' = slices_for_training b \<Longrightarrow>
   total_num_trajectories b' = total_num_trajectories b"
  by (simp add: total_num_trajectories_def)

text \<open>
  One round of the loop in synchronous mode: from a state that satisfies the invariant,
  with a free buffer and enough trajectories, the batch is assembled and the invariant
  holds again, the batch now being in flight.
\<close>

lemma assemble_batch_inv:
  assumes inv: "batcher_inv b" and sh: "is_shuffle shuffle"
    and avail: "available_batches b = i # rest"
    and guard: "traj_per_training_iteration b \<le> total_num_trajectories b"
  shows "\<exists>b' new. assemble_batch shuffle i (b\<lparr>available_batches := rest\<rparr>) = Inr b' \<and>
    cfg b' = cfg b \<and> available_batches b' = rest \<and>
    slices_for_sampling b' = slices_for_sampling b \<and>
    traj_buffer_queues b' = traj_buffer_queues b \<and>
    traj_per_training_iteration b' = traj_per_training_iteration b \<and>
    emitted b' = emitted b @ [TrainingBatchesAvailable i] \<and>
    mergers_ok b' \<and>
    training_batches b' = (training_batches b)[i := map Some (pending_rows new)] \<and>
    traj_tensors_to_release b' = (traj_tensors_to_release b)[i := new] \<and>
    sum_list (map (\<lambda>(d, s). slice_len s) new) = traj_per_training_iteration b \<and>
    int (length (pending_rows new)) = traj_per_training_iteration b \<and>
    total_num_trajectories b' = total_num_trajectories b - traj_per_training_iteration b \<and>
    distinct (pending_rows new) \<and>
    training_slots b = set (pending_rows new) \<union> training_slots b' \<and>
    set (pending_rows new) \<inter> training_slots b' = {} \<and>
    (\<not> async_rl (cfg b) \<longrightarrow> batcher_inv b')"
proof -
  let ?b0 = "b\<lparr>available_batches := rest\<rparr>"
  let ?B = "traj_per_training_iteration b"
  let ?K = "length (traj_tensors_to_release b)"
  note I = batcher_invD [OF inv]
  have iav: "i \<in> set (available_batches b)" by (simp add: avail)
  have iK: "i < ?K" and pend: "traj_tensors_to_release b ! i = []" using I(6) [OF iav] by simp_all
  have itb: "i < length (training_batches b)" using iK I(3) by simp
  have inot: "i \<notin> set rest" and drest: "distinct rest" using I(5) avail by simp_all
  have ok0: "mergers_ok ?b0" using I(1) by (simp add: mergers_ok_def)
  have i10: "i < length (training_batches ?b0)" and i20: "i < length (traj_tensors_to_release ?b0)"
    and pend0: "traj_tensors_to_release ?b0 ! i = []"
    and len0: "length (training_batches ?b0 ! i) = nat (traj_per_training_iteration ?b0)"
    and B0: "0 \<le> traj_per_training_iteration ?b0"
    and guard0: "traj_per_training_iteration ?b0 \<le> total_num_trajectories ?b0"
    using itb iK pend I(4) [OF itb] I(2) guard by (simp_all add: total_num_trajectories_def)
  from assemble_batch_ok [OF sh ok0 i10 i20 pend0 len0 B0 guard0] obtain b1 new where
    res: "assemble_batch shuffle i ?b0 = Inr (emit (TrainingBatchesAvailable i) b1)"
    and run: "fill_batch i (shuffle (shuffle_calls ?b0) (map fst (slices_for_training ?b0))) 0
       (?b0\<lparr>shuffle_calls := Suc (shuffle_calls ?b0)\<rparr>) =
         Inr (traj_per_training_iteration ?b0, b1)"
    and ok1: "mergers_ok b1"
    and tb1: "training_batches b1 = (training_batches ?b0)[i := map Some (pending_rows new)]"
    and ttr1: "traj_tensors_to_release b1 = (traj_tensors_to_release ?b0)[i := new]"
    and sum: "sum_list (map (\<lambda>(d, s). slice_len s) new) = traj_per_training_iteration ?b0"
    and l: "int (length (pending_rows new)) = traj_per_training_iteration ?b0"
    and tot1: "total_num_trajectories b1 =
      total_num_trajectories ?b0 - traj_per_training_iteration ?b0"
    and dr: "distinct (pending_rows new)"
    and T: "training_slots ?b0 = set (pending_rows new) \<union> training_slots b1"
    and D: "set (pending_rows new) \<inter> training_slots b1 = {}"
    by (elim exE conjE) (rule that)
  let ?b' = "emit (TrainingBatchesAvailable i) b1"
  note fr = fill_batch_frame [OF run]
  have c1: "cfg ?b' = cfg b" using fr by (simp add: emit_def)
  have c2: "available_batches ?b' = rest" using fr by (simp add: emit_def)
  have c3: "slices_for_sampling ?b' = slices_for_sampling b" using fr by (simp add: emit_def)
  have c4: "traj_buffer_queues ?b' = traj_buffer_queues b" using fr by (simp add: emit_def)
  have c5: "traj_per_training_iteration ?b' = ?B" using fr by (simp add: emit_def)
  have c6: "emitted ?b' = emitted b @ [TrainingBatchesAvailable i]"
    using fr by (simp add: emit_def)
  have sft: "slices_for_training ?b' = slices_for_training b1" by (simp add: emit_def)
  have c7: "mergers_ok ?b'" using ok1 mergers_ok_cong [OF sft] by simp
  have c8: "training_batches ?b' = (training_batches b)[i := map Some (pending_rows new)]"
    using tb1 by (simp add: emit_def)
  have c9: "traj_tensors_to_release ?b' = (traj_tensors_to_release b)[i := new]"
    using ttr1 by (simp add: emit_def)
  have c10: "sum_list (map (\<lambda>(d, s). slice_len s) new) = ?B" using sum by simp
  have c11: "int (length (pending_rows new)) = ?B" using l by simp
  have ts': "training_slots ?b' = training_slots b1" by (rule training_slots_cong [OF sft])
  have c12: "total_num_trajectories ?b' = total_num_trajectories b - ?B"
    using tot1 total_num_trajectories_cong [OF sft]
    by (simp add: total_num_trajectories_def)
  have c13: "training_slots b = set (pending_rows new) \<union> training_slots ?b'"
    using T ts' by (simp add: training_slots_def)
  have c14: "set (pending_rows new) \<inter> training_slots ?b' = {}" using D ts' by simp
  have c15: "batcher_inv ?b'" if sync: "\<not> async_rl (cfg b)"
    unfolding batcher_inv_def
  proof (intro conjI)
    have K': "length (traj_tensors_to_release ?b') = ?K" by (simp add: c9)
    have nth_i: "traj_tensors_to_release ?b' ! i = new" using iK by (simp add: c9)
    have nth_j: "traj_tensors_to_release ?b' ! j = traj_tensors_to_release b ! j"
      if "j \<noteq> i" for j using that by (simp add: c9)
    have ps_i: "pending_slots ?b' i = set (pending_rows new)"
      by (simp add: pending_slots_def nth_i)
    have ps_j: "pending_slots ?b' j = pending_slots b j" if "j \<noteq> i" for j
      using that by (simp add: pending_slots_def nth_j)
    have sub: "training_slots ?b' \<subseteq> training_slots b" using c13 by blast
    have new_sub: "set (pending_rows new) \<subseteq> training_slots b" using c13 by blast
    show "mergers_ok ?b'" by (rule c7)
    show "0 \<le> traj_per_training_iteration ?b'" using I(2) c5 by simp
    show "length (training_batches ?b') = length (traj_tensors_to_release ?b')"
      using I(3) by (simp add: c8 c9)
    show "\<forall>buf \<in> set (training_batches ?b'). length buf = nat (traj_per_training_iteration ?b')"
    proof
      fix buf assume "buf \<in> set (training_batches ?b')"
      then have "buf = map Some (pending_rows new) \<or> buf \<in> set (training_batches b)"
        unfolding c8 using set_update_subset_insert [of "training_batches b" i] by blast
      moreover have "length (map Some (pending_rows new)) = nat ?B" using c11 by simp
      moreover have "length buf = nat ?B" if "buf \<in> set (training_batches b)"
        using that I(4) by (metis in_set_conv_nth)
      ultimately show "length buf = nat (traj_per_training_iteration ?b')"
        unfolding c5 by blast
    qed
    show "distinct (available_batches ?b')" using drest c2 by simp
    show "\<forall>j \<in> set (available_batches ?b').
        j < length (traj_tensors_to_release ?b') \<and> traj_tensors_to_release ?b' ! j = []"
    proof
      fix j assume "j \<in> set (available_batches ?b')"
      then have j: "j \<in> set rest" by (simp add: c2)
      then have "j \<noteq> i" using inot by blast
      moreover have "j \<in> set (available_batches b)" using j avail by simp
      ultimately show "j < length (traj_tensors_to_release ?b') \<and>
          traj_tensors_to_release ?b' ! j = []"
        using I(6) [of j] by (simp add: K' nth_j)
    qed
    show "\<forall>j < length (traj_tensors_to_release ?b').
        distinct (pending_rows (traj_tensors_to_release ?b' ! j)) \<and>
        pending_slots ?b' j \<inter> training_slots ?b' = {}"
    proof (intro allI impI)
      fix j assume "j < length (traj_tensors_to_release ?b')"
      then have j: "j < ?K" by (simp add: K')
      show "distinct (pending_rows (traj_tensors_to_release ?b' ! j)) \<and>
          pending_slots ?b' j \<inter> training_slots ?b' = {}"
      proof (cases "j = i")
        case True
        then show ?thesis using dr c14 by (simp add: nth_i ps_i)
      next
        case False
        then show ?thesis using I(7) [OF j] sub by (simp add: nth_j ps_j) blast
      qed
    qed
    show "\<forall>j < length (traj_tensors_to_release ?b').
        \<forall>k < length (traj_tensors_to_release ?b').
          j \<noteq> k \<longrightarrow> pending_slots ?b' j \<inter> pending_slots ?b' k = {}"
    proof (intro allI impI)
      fix j k assume "j < length (traj_tensors_to_release ?b')"
        "k < length (traj_tensors_to_release ?b')" "j \<noteq> k"
      then have j: "j < ?K" and k: "k < ?K" and jk: "j \<noteq> k" by (simp_all add: K')
      consider "j = i" | "k = i" | "j \<noteq> i" "k \<noteq> i" by blast
      then show "pending_slots ?b' j \<inter> pending_slots ?b' k = {}"
      proof cases
        case 1
        then have "k \<noteq> i" using jk by simp
        then show ?thesis using 1 I(7) [OF k] new_sub by (simp add: ps_i ps_j) blast
      next
        case 2
        then have "j \<noteq> i" using jk by simp
        then show ?thesis using 2 I(7) [OF j] new_sub by (simp add: ps_i ps_j) blast
      next
        case 3
        then show ?thesis using I(8) [OF j k jk] by (simp add: ps_j)
      qed
    qed
    show "if async_rl (cfg ?b')
      then \<forall>j < length (traj_tensors_to_release ?b'). traj_tensors_to_release ?b' ! j = []
      else \<forall>j < length (traj_tensors_to_release ?b'). j \<notin> set (available_batches ?b') \<longrightarrow>
             training_batches ?b' ! j =
               map Some (pending_rows (traj_tensors_to_release ?b' ! j))"
    proof -
      have "training_batches ?b' ! j = map Some (pending_rows (traj_tensors_to_release ?b' ! j))"
        if "j < ?K" "j \<notin> set rest" for j
      proof (cases "j = i")
        case True
        then show ?thesis using itb by (simp add: c8 nth_i)
      next
        case False
        then have "j \<notin> set (available_batches b)" using that(2) avail by simp
        from I(10) [OF sync that(1) this] False show ?thesis by (simp add: c8 nth_j)
      qed
      then show ?thesis using sync by (simp add: c1 c2 K')
    qed
  qed
  then have c15': "\<not> async_rl (cfg b) \<longrightarrow> batcher_inv ?b'" by blast
  show ?thesis
    by (intro exI [of _ ?b'] exI [of _ new] conjI)
      (fact res c1 c2 c3 c4 c5 c6 c7 c8 c9 c10 c11 c12 dr c13 c14 c15')+
qed

lemma batcher_inv_emit: "batcher_inv b \<Longrightarrow> batcher_inv (emit sig b)"
  by (simp add: batcher_inv_def emit_def mergers_ok_def training_slots_def pending_slots_def)

text \<open>
  One round of the loop in asynchronous mode: the slots of the batch are released at once,
  and the invariant holds again with every pending list empty.
\<close>

lemma assemble_release_inv:
  assumes inv: "batcher_inv b" and sh: "is_shuffle shuffle"
    and avail: "available_batches b = i # rest"
    and guard: "traj_per_training_iteration b \<le> total_num_trajectories b"
    and async: "async_rl (cfg b)"
    and asm: "assemble_batch shuffle i (b\<lparr>available_batches := rest\<rparr>) = Inr b'"
    and rel: "release_traj_tensors i b' = Inr b''"
  shows "batcher_inv b''" and "cfg b'' = cfg b" and "available_batches b'' = rest"
proof -
  note I = batcher_invD [OF inv]
  let ?K = "length (traj_tensors_to_release b)"
  from assemble_batch_inv [OF inv sh avail guard] obtain b1 new where
    res: "assemble_batch shuffle i (b\<lparr>available_batches := rest\<rparr>) = Inr b1"
    and d1: "cfg b1 = cfg b" and d2: "available_batches b1 = rest"
    and d5: "traj_per_training_iteration b1 = traj_per_training_iteration b"
    and d7: "mergers_ok b1"
    and d8: "training_batches b1 = (training_batches b)[i := map Some (pending_rows new)]"
    and d9: "traj_tensors_to_release b1 = (traj_tensors_to_release b)[i := new]"
    and c11: "int (length (pending_rows new)) = traj_per_training_iteration b"
    by (elim exE conjE) (rule that)
  from res asm have b1: "b1 = b'" by simp
  note c1 = d1 [unfolded b1] and c2 = d2 [unfolded b1] and c5 = d5 [unfolded b1]
    and c7 = d7 [unfolded b1] and c8 = d8 [unfolded b1] and c9 = d9 [unfolded b1]
  note fr = release_traj_tensors_frame [OF rel]
  have iav: "i \<in> set (available_batches b)" by (simp add: avail)
  have iK: "i < ?K" and pend: "traj_tensors_to_release b ! i = []" using I(6) [OF iav] by simp_all
  have empty: "traj_tensors_to_release b ! j = []" if "j < ?K" for j
    using I(9) [OF async that] .
  have ttr: "traj_tensors_to_release b'' = traj_tensors_to_release b"
    unfolding fr(11) c9 using pend iK by (simp add: list_update_same_conv)
  have tb: "training_batches b'' = (training_batches b)[i := map Some (pending_rows new)]"
    using fr(4) c8 by simp
  have ps: "pending_slots b'' j = {}" if "j < ?K" for j
    using empty [OF that] by (simp add: pending_slots_def ttr pending_rows_def)
  show "cfg b'' = cfg b" using fr(2) c1 by simp
  show av: "available_batches b'' = rest" using fr(1) c2 by simp
  show "batcher_inv b''"
    unfolding batcher_inv_def
  proof (intro conjI)
    show "mergers_ok b''" using c7 mergers_ok_cong [OF fr(3)] by simp
    show "0 \<le> traj_per_training_iteration b''" using I(2) fr(5) c5 by simp
    show "length (training_batches b'') = length (traj_tensors_to_release b'')"
      using I(3) by (simp add: tb ttr)
    show "\<forall>buf \<in> set (training_batches b''). length buf = nat (traj_per_training_iteration b'')"
    proof
      fix buf assume "buf \<in> set (training_batches b'')"
      then have "buf = map Some (pending_rows new) \<or> buf \<in> set (training_batches b)"
        unfolding tb using set_update_subset_insert [of "training_batches b" i] by blast
      moreover have "length (map Some (pending_rows new)) = nat (traj_per_training_iteration b)"
        using c11 by simp
      moreover have "length buf = nat (traj_per_training_iteration b)"
        if "buf \<in> set (training_batches b)"
        using that I(4) by (metis in_set_conv_nth)
      ultimately show "length buf = nat (traj_per_training_iteration b'')"
        unfolding fr(5) c5 by blast
    qed
    show "distinct (available_batches b'')" using I(5) avail av by simp
    show "\<forall>j \<in> set (available_batches b'').
        j < length (traj_tensors_to_release b'') \<and> traj_tensors_to_release b'' ! j = []"
      using I(6) avail by (simp add: av ttr)
    show "\<forall>j < length (traj_tensors_to_release b'').
        distinct (pending_rows (traj_tensors_to_release b'' ! j)) \<and>
        pending_slots b'' j \<inter> training_slots b'' = {}"
      using ps empty by (simp add: ttr pending_rows_def)
    show "\<forall>j < length (traj_tensors_to_release b'').
        \<forall>k < length (traj_tensors_to_release b'').
          j \<noteq> k \<longrightarrow> pending_slots b'' j \<inter> pending_slots b'' k = {}"
      using ps by (simp add: ttr)
    show "if async_rl (cfg b'')
      then \<forall>j < length (traj_tensors_to_release b''). traj_tensors_to_release b'' ! j = []
      else \<forall>j < length (traj_tensors_to_release b''). j \<notin> set (available_batches b'') \<longrightarrow>
             training_batches b'' ! j =
               map Some (pending_rows (traj_tensors_to_release b'' ! j))"
      using async empty fr(2) c1 by (simp add: ttr)
  qed
qed

text \<open>
  A whole pass of \<^verbatim>\<open>_maybe_enqueue_new_training_batches\<close> keeps the invariant; in
  synchronous mode it always returns.
\<close>

lemma maybe_enqueue_inv:
  assumes "batcher_inv b" and "is_shuffle shuffle"
  shows "(\<forall>b'. maybe_enqueue_new_training_batches shuffle b = Inr b' \<longrightarrow>
            batcher_inv b' \<and> cfg b' = cfg b) \<and>
         (\<not> async_rl (cfg b) \<longrightarrow>
          (\<exists>b'. maybe_enqueue_new_training_batches shuffle b = Inr b'))"
  using assms
proof (induction shuffle b rule: maybe_enqueue_new_training_batches.induct)
  case (1 shuffle b)
  note inv = \<open>batcher_inv b\<close> and sh = \<open>is_shuffle shuffle\<close>
  show ?case
  proof (cases "available_batches b")
    case Nil
    then have "maybe_enqueue_new_training_batches shuffle b = Inr b"
      by (simp add: maybe_enqueue_new_training_batches.simps [of shuffle b])
    with inv show ?thesis by simp
  next
    case (Cons i rest)
    show ?thesis
    proof (cases "total_num_trajectories b < traj_per_training_iteration b")
      case True
      with Cons have "maybe_enqueue_new_training_batches shuffle b = Inr b"
        by (simp add: maybe_enqueue_new_training_batches.simps [of shuffle b])
      with inv show ?thesis by simp
    next
      case False
      then have guard: "traj_per_training_iteration b \<le> total_num_trajectories b" by simp
      from assemble_batch_inv [OF inv sh Cons guard] obtain b' where
        asm: "assemble_batch shuffle i (b\<lparr>available_batches := rest\<rparr>) = Inr b'"
        and cfg': "cfg b' = cfg b"
        and inv': "\<not> async_rl (cfg b) \<longrightarrow> batcher_inv b'"
        by (elim exE conjE) (rule that)
      show ?thesis
      proof (cases "async_rl (cfg b)")
        case sync: False
        then have eq: "maybe_enqueue_new_training_batches shuffle b =
            maybe_enqueue_new_training_batches shuffle b'"
          using Cons False asm cfg'
          by (simp add: maybe_enqueue_new_training_batches.simps [of shuffle b])
        from sync cfg' have ns: "\<not> async_rl (cfg b')" by simp
        from inv' sync have invb': "batcher_inv b'" by simp
        note ih = "1.IH"(2) [OF Cons False asm ns invb' sh, unfolded cfg']
        show ?thesis unfolding eq by (rule ih)
      next
        case async: True
        show ?thesis
        proof (cases "release_traj_tensors i b'")
          case (Inl e)
          then have "maybe_enqueue_new_training_batches shuffle b = Inl e"
            using Cons False asm cfg' async
            by (simp add: maybe_enqueue_new_training_batches.simps [of shuffle b])
          with async show ?thesis by simp
        next
          case (Inr b'')
          let ?next = "if available_batches b'' = []
            then emit StopExperienceCollection b'' else b''"
          have eq: "maybe_enqueue_new_training_batches shuffle b =
              maybe_enqueue_new_training_batches shuffle ?next"
            using Cons False asm cfg' async Inr
            by (simp add: maybe_enqueue_new_training_batches.simps [of shuffle b])
          note r = assemble_release_inv [OF inv sh Cons guard async asm Inr]
          have invn: "batcher_inv ?next" using r(1) by (simp add: batcher_inv_emit)
          have cfgn: "cfg ?next = cfg b" using r(2) by (simp add: emit_def)
          from async cfg' have as: "async_rl (cfg b')" by simp
          note ih = "1.IH"(1) [OF Cons False asm as Inr invn sh, unfolded cfgn]
          show ?thesis unfolding eq by (rule ih)
        qed
      qed
    qed
  qed
qed

subsection \<open>Runs of a Batcher\<close>

text \<open>
  What a producer may report: slices of slots it owns. A producer writes only slots it was
  handed through its queue, so a report names non-empty slices that do not overlap each
  other and that contain no slot the Batcher still holds.
\<close>

definition producer_report :: "Batcher \<Rightarrow> device \<Rightarrow> trajectory_dict list \<Rightarrow> bool" where
  "producer_report b device trajectory_dicts \<longleftrightarrow>
     list_all nonempty (map trajectory_slice trajectory_dicts) \<and>
     pairwise_disjoint (map trajectory_slice trajectory_dicts) \<and>
     (\<forall>td \<in> set trajectory_dicts.
        ({device} \<times> slice_indices (trajectory_slice td)) \<inter> held_slots b = {})"

text \<open>
  The states of a run that starts in \<open>b0\<close>: producers report new trajectories, and the
  learner hands back a batch buffer that is in flight.
\<close>

inductive reachable :: "shuffle \<Rightarrow> Batcher \<Rightarrow> Batcher \<Rightarrow> bool" for shuffle :: shuffle and b0 :: Batcher where
  start: "reachable shuffle b0 b0"
| new_trajectories:
    "reachable shuffle b0 b \<Longrightarrow> producer_report b device trajectory_dicts \<Longrightarrow>
     on_new_trajectories shuffle trajectory_dicts device b = Inr b' \<Longrightarrow>
     reachable shuffle b0 b'"
| batch_released:
    "reachable shuffle b0 b \<Longrightarrow> in_flight b batch_idx \<Longrightarrow>
     on_training_batch_released shuffle batch_idx iteration b = Inr b' \<Longrightarrow>
     reachable shuffle b0 b'"

lemma held_slots_pending: "i < length (traj_tensors_to_release b) \<Longrightarrow> pending_slots b i \<subseteq> held_slots b"
  by (auto simp: held_slots_def)

lemma merge_new_trajectories_inv:
  assumes "batcher_inv b" and "producer_report b device tds"
    and "merge_new_trajectories tds device b = Inr b'"
  shows "batcher_inv b' \<and> cfg b' = cfg b"
  using assms
proof (induction tds arbitrary: b)
  case Nil
  then show ?case by simp
next
  case (Cons td tds)
  note inv = Cons.prems(1) and rep = Cons.prems(2)
  note I = batcher_invD [OF inv]
  let ?ts = "trajectory_slice td"
  let ?K = "length (traj_tensors_to_release b)"
  from Cons.prems(3) obtain m m' where
    m: "dict_get (slices_for_training b) device = Some m"
    and mg: "merge_slices ?ts m = Inr m'"
    and rest: "merge_new_trajectories tds device
      (b\<lparr>slices_for_training := dict_set device m' (slices_for_training b)\<rparr>) = Inr b'"
    by (auto split: if_splits option.splits sum.splits)
  let ?b1 = "b\<lparr>slices_for_training := dict_set device m' (slices_for_training b)\<rparr>"
  from rep have ne: "start ?ts < stop ?ts"
    and held: "({device} \<times> slice_indices ?ts) \<inter> held_slots b = {}"
    and pd: "\<forall>t \<in> set (map trajectory_slice tds). slice_indices ?ts \<inter> slice_indices t = {}"
    and rep_rest: "list_all nonempty (map trajectory_slice tds)"
      "pairwise_disjoint (map trajectory_slice tds)"
      "\<forall>td' \<in> set tds. ({device} \<times> slice_indices (trajectory_slice td')) \<inter> held_slots b = {}"
    by (simp_all add: producer_report_def nonempty_def)
  have "(device, m) \<in> set (slices_for_training b)"
    using m by (simp add: dict_get_def map_of_SomeD)
  then have cm: "consistent m" using I(1) by (auto simp: mergers_ok_def)
  have "slice_indices ?ts \<inter> indices m = {}"
  proof -
    have "{device} \<times> indices m \<subseteq> training_slots b"
      using training_slots_iff [OF I(1)] m by auto
    then show ?thesis using held unfolding held_slots_def by blast
  qed
  from merge_slices_consistent [OF cm ne fresh_from_indices [OF cm ne this]] mg
  have cm': "consistent m'" and ind: "indices m' = indices m \<union> slice_indices ?ts" by auto
  note upd = mergers_ok_update [OF I(1) m _ cm', of ?b1, simplified]
  have ts1: "training_slots ?b1 = training_slots b \<union> {device} \<times> slice_indices ?ts"
  proof -
    have "{device} \<times> indices m \<subseteq> training_slots b"
      using training_slots_iff [OF I(1)] m by auto
    then show ?thesis unfolding upd(3) ind by blast
  qed
  have ps1: "pending_slots ?b1 i = pending_slots b i" for i by (simp add: pending_slots_def)
  have hs1: "held_slots ?b1 = held_slots b \<union> {device} \<times> slice_indices ?ts"
    unfolding held_slots_def ts1 by (auto simp: ps1)
  have inv1: "batcher_inv ?b1"
    unfolding batcher_inv_def
  proof (intro conjI)
    show "mergers_ok ?b1" by (rule upd(1))
    show "\<forall>i < length (traj_tensors_to_release ?b1).
        distinct (pending_rows (traj_tensors_to_release ?b1 ! i)) \<and>
        pending_slots ?b1 i \<inter> training_slots ?b1 = {}"
    proof (intro allI impI)
      fix i assume "i < length (traj_tensors_to_release ?b1)"
      then have i: "i < ?K" by simp
      have "pending_slots b i \<inter> ({device} \<times> slice_indices ?ts) = {}"
        using held held_slots_pending [OF i] by blast
      then show "distinct (pending_rows (traj_tensors_to_release ?b1 ! i)) \<and>
          pending_slots ?b1 i \<inter> training_slots ?b1 = {}"
        using I(7) [OF i] unfolding ts1 ps1 by (simp add: Int_Un_distrib)
    qed
    show "\<forall>i < length (traj_tensors_to_release ?b1).
        \<forall>j < length (traj_tensors_to_release ?b1).
          i \<noteq> j \<longrightarrow> pending_slots ?b1 i \<inter> pending_slots ?b1 j = {}"
      using I(8) by (simp add: ps1)
    show "if async_rl (cfg ?b1)
      then \<forall>i < length (traj_tensors_to_release ?b1). traj_tensors_to_release ?b1 ! i = []
      else \<forall>i < length (traj_tensors_to_release ?b1). i \<notin> set (available_batches ?b1) \<longrightarrow>
             training_batches ?b1 ! i =
               map Some (pending_rows (traj_tensors_to_release ?b1 ! i))"
      using I(9,10) by simp
  qed (use inv [unfolded batcher_inv_def] in simp_all)
  have rep1: "producer_report ?b1 device tds"
    unfolding producer_report_def hs1 using rep_rest pd by auto
  from Cons.IH [OF inv1 rep1 rest] show ?case by simp
qed

lemma on_new_trajectories_inv:
  assumes "batcher_inv b" and "is_shuffle shuffle" and "producer_report b device tds"
    and "on_new_trajectories shuffle tds device b = Inr b'"
  shows "batcher_inv b' \<and> cfg b' = cfg b"
proof -
  from assms(4) obtain b1 where m: "merge_new_trajectories tds device b = Inr b1"
    and e: "maybe_enqueue_new_training_batches shuffle b1 = Inr b'"
    by (auto simp: on_new_trajectories_def split: sum.splits)
  from merge_new_trajectories_inv [OF assms(1,3) m]
  have "batcher_inv b1" and "cfg b1 = cfg b" by simp_all
  with maybe_enqueue_inv [OF this(1) assms(2)] e show ?thesis by simp
qed

text \<open>
  Handing back a batch that is in flight: in synchronous mode its pending slices are
  released first; the buffer then joins the free ones.
\<close>

lemma released_inv:
  assumes inv: "batcher_inv b" and fl: "in_flight b i"
    and b1: "(if \<not> async_rl (cfg b)
              then release_traj_tensors i (b\<lparr>training_iteration := iteration\<rparr>)
              else Inr (b\<lparr>training_iteration := iteration\<rparr>)) = Inr b1"
  shows "batcher_inv (b1\<lparr>available_batches := available_batches b1 @ [i]\<rparr>)"
    and "cfg b1 = cfg b" and "available_batches b1 = available_batches b"
proof -
  note I = batcher_invD [OF inv]
  let ?K = "length (traj_tensors_to_release b)"
  let ?b0 = "b\<lparr>training_iteration := iteration\<rparr>"
  let ?b2 = "b1\<lparr>available_batches := available_batches b1 @ [i]\<rparr>"
  from fl have iK: "i < ?K" and inot: "i \<notin> set (available_batches b)"
    using I(3) by (simp_all add: in_flight_def)
  have f: "available_batches b1 = available_batches b" "cfg b1 = cfg b"
    "slices_for_training b1 = slices_for_training b"
    "training_batches b1 = training_batches b"
    "traj_per_training_iteration b1 = traj_per_training_iteration b"
    "traj_tensors_to_release b1 = (traj_tensors_to_release b)[i := []]"
  proof -
    show "available_batches b1 = available_batches b" "cfg b1 = cfg b"
      "slices_for_training b1 = slices_for_training b"
      "training_batches b1 = training_batches b"
      "traj_per_training_iteration b1 = traj_per_training_iteration b"
      using b1 by (auto split: if_splits dest: release_traj_tensors_frame)
    show "traj_tensors_to_release b1 = (traj_tensors_to_release b)[i := []]"
    proof (cases "async_rl (cfg b)")
      case True
      then have "b1 = ?b0" using b1 by simp
      moreover have "(traj_tensors_to_release b)[i := []] = traj_tensors_to_release b"
        using I(9) [OF True iK] iK by (simp add: list_update_same_conv)
      ultimately show ?thesis by simp
    next
      case False
      then show ?thesis using b1 release_traj_tensors_frame(11) [of i ?b0 b1] by simp
    qed
  qed
  show "cfg b1 = cfg b" "available_batches b1 = available_batches b" by (rule f)+
  have nth_j: "traj_tensors_to_release b1 ! j = traj_tensors_to_release b ! j"
    if "j \<noteq> i" for j using that by (simp add: f)
  have nth_i: "traj_tensors_to_release b1 ! i = []" using iK by (simp add: f)
  have ps_j: "pending_slots ?b2 j = pending_slots b j" if "j \<noteq> i" for j
    using that by (simp add: pending_slots_def f)
  have ps_i: "pending_slots ?b2 i = {}"
    using iK by (simp add: pending_slots_def f pending_rows_def)
  have ts: "training_slots ?b2 = training_slots b" by (simp add: training_slots_def f)
  show "batcher_inv ?b2"
    unfolding batcher_inv_def
  proof (intro conjI)
    show "mergers_ok ?b2" using I(1) by (simp add: mergers_ok_def f)
    show "0 \<le> traj_per_training_iteration ?b2" using I(2) by (simp add: f)
    show "length (training_batches ?b2) = length (traj_tensors_to_release ?b2)"
      using I(3) by (simp add: f)
    show "\<forall>buf \<in> set (training_batches ?b2). length buf = nat (traj_per_training_iteration ?b2)"
      using inv [unfolded batcher_inv_def] by (simp add: f)
    show "distinct (available_batches ?b2)" using I(5) inot by (simp add: f)
    show "\<forall>j \<in> set (available_batches ?b2).
        j < length (traj_tensors_to_release ?b2) \<and> traj_tensors_to_release ?b2 ! j = []"
    proof
      fix j assume j: "j \<in> set (available_batches ?b2)"
      show "j < length (traj_tensors_to_release ?b2) \<and> traj_tensors_to_release ?b2 ! j = []"
      proof (cases "j = i")
        case True
        then show ?thesis using iK nth_i by (simp add: f)
      next
        case False
        with j have "j \<in> set (available_batches b)" by (simp add: f)
        from I(6) [OF this] False show ?thesis by (simp add: f)
      qed
    qed
    show "\<forall>j < length (traj_tensors_to_release ?b2).
        distinct (pending_rows (traj_tensors_to_release ?b2 ! j)) \<and>
        pending_slots ?b2 j \<inter> training_slots ?b2 = {}"
    proof (intro allI impI)
      fix j assume "j < length (traj_tensors_to_release ?b2)"
      then have j: "j < ?K" by (simp add: f)
      show "distinct (pending_rows (traj_tensors_to_release ?b2 ! j)) \<and>
          pending_slots ?b2 j \<inter> training_slots ?b2 = {}"
      proof (cases "j = i")
        case True
        then show ?thesis by (simp add: nth_i ps_i pending_rows_def)
      next
        case False
        then show ?thesis using I(7) [OF j] by (simp add: nth_j ps_j ts)
      qed
    qed
    show "\<forall>j < length (traj_tensors_to_release ?b2).
        \<forall>k < length (traj_tensors_to_release ?b2).
          j \<noteq> k \<longrightarrow> pending_slots ?b2 j \<inter> pending_slots ?b2 k = {}"
    proof (intro allI impI)
      fix j k assume "j < length (traj_tensors_to_release ?b2)"
        "k < length (traj_tensors_to_release ?b2)" "j \<noteq> k"
      then have j: "j < ?K" and k: "k < ?K" and jk: "j \<noteq> k" by (simp_all add: f)
      consider "j = i" | "k = i" | "j \<noteq> i" "k \<noteq> i" by blast
      then show "pending_slots ?b2 j \<inter> pending_slots ?b2 k = {}"
      proof cases
        case 1
        then show ?thesis by (simp add: ps_i)
      next
        case 2
        then show ?thesis by (simp add: ps_i)
      next
        case 3
        then show ?thesis using I(8) [OF j k jk] by (simp add: ps_j)
      qed
    qed
    show "if async_rl (cfg ?b2)
      then \<forall>j < length (traj_tensors_to_release ?b2). traj_tensors_to_release ?b2 ! j = []
      else \<forall>j < length (traj_tensors_to_release ?b2). j \<notin> set (available_batches ?b2) \<longrightarrow>
             training_batches ?b2 ! j =
               map Some (pending_rows (traj_tensors_to_release ?b2 ! j))"
    proof (cases "async_rl (cfg b)")
      case True
      have "traj_tensors_to_release ?b2 ! j = []" if "j < ?K" for j
        using I(9) [OF True that] nth_i nth_j by (cases "j = i") simp_all
      then show ?thesis using True by (simp add: f)
    next
      case False
      have "training_batches ?b2 ! j = map Some (pending_rows (traj_tensors_to_release ?b2 ! j))"
        if "j < ?K" "j \<notin> set (available_batches ?b2)" for j
      proof -
        from that(2) have ji: "j \<noteq> i" and "j \<notin> set (available_batches b)" by (simp_all add: f)
        from I(10) [OF False that(1) this(2)] show ?thesis
          using nth_j [OF ji] by (simp add: f)
      qed
      then show ?thesis using False by (simp add: f)
    qed
  qed
qed

lemma on_training_batch_released_inv:
  assumes inv: "batcher_inv b" and sh: "is_shuffle shuffle" and fl: "in_flight b i"
    and res: "on_training_batch_released shuffle i iteration b = Inr b'"
  shows "batcher_inv b' \<and> cfg b' = cfg b"
proof -
  let ?r = "if \<not> async_rl (cfg b)
      then release_traj_tensors i (b\<lparr>training_iteration := iteration\<rparr>)
      else Inr (b\<lparr>training_iteration := iteration\<rparr>)"
  from res obtain b1 where b1: "?r = Inr b1"
    unfolding on_training_batch_released_def by (cases ?r) simp_all
  let ?b2 = "if available_batches b1 = [] \<and> async_rl (cfg b1)
      then emit ResumeExperienceCollection b1 else b1"
  let ?b3 = "?b2\<lparr>available_batches := available_batches ?b2 @ [i]\<rparr>"
  from res b1 have e: "maybe_enqueue_new_training_batches shuffle ?b3 = Inr b'"
    unfolding on_training_batch_released_def by (simp add: Let_def)
  note r = released_inv [OF inv fl b1]
  have inv3: "batcher_inv ?b3"
  proof (cases "available_batches b1 = [] \<and> async_rl (cfg b1)")
    case True
    then have "?b3 = emit ResumeExperienceCollection
        (b1\<lparr>available_batches := available_batches b1 @ [i]\<rparr>)"
      by (simp add: emit_def)
    then show ?thesis using batcher_inv_emit [OF r(1)] by simp
  next
    case False
    then have "?b3 = b1\<lparr>available_batches := available_batches b1 @ [i]\<rparr>" by auto
    then show ?thesis using r(1) by simp
  qed
  have cfg3: "cfg ?b3 = cfg b" using r(2) by (simp add: emit_def)
  from maybe_enqueue_inv [OF inv3 sh] e cfg3 show ?thesis by simp
qed

text \<open>Every state of a run satisfies the invariant, and the configuration never changes.\<close>

lemma reachable_inv:
  assumes "reachable shuffle b0 b" and "batcher_inv b0" and "is_shuffle shuffle"
  shows "batcher_inv b \<and> cfg b = cfg b0"
  using assms
proof (induction rule: reachable.induct)
  case start
  then show ?case by simp
next
  case (new_trajectories b device tds b')
  then have "batcher_inv b" "cfg b = cfg b0" by simp_all
  with on_new_trajectories_inv [OF this(1) new_trajectories.prems(2)
    new_trajectories.hyps(2,3)] show ?case by simp
next
  case (batch_released b i iteration b')
  then have "batcher_inv b" "cfg b = cfg b0" by simp_all
  with on_training_batch_released_inv [OF this(1) batch_released.prems(2)
    batch_released.hyps(2,3)] show ?case by simp
qed

end
